theory Spec2Isabelle
  imports Complex_Main "HOL-Library.Sublist" "HOL-Library.AList" "HOL-Library.Multiset"
begin

section \<open>Python values used by the scraper\<close>

text \<open>
  A Python \<^verbatim>\<open>str\<close> is a sequence of Unicode code points, and \<^verbatim>\<open>len\<close>, slicing and
  \<^verbatim>\<open>strip\<close> count code points. A string is therefore a list of code points; \<open>u\<close> writes
  an ASCII literal of the source as such a list.
\<close>

type_synonym pystr = "nat list"

definition u :: "string \<Rightarrow> pystr" where
  "u s = map of_char s"

text \<open>
  \<^verbatim>\<open>str.strip()\<close> without argument removes leading and trailing characters for which
  \<^verbatim>\<open>str.isspace\<close> holds; the code points below are the ones CPython treats as whitespace.
\<close>

definition isspace :: "nat \<Rightarrow> bool" where
  "isspace c \<longleftrightarrow>
     (9 \<le> c \<and> c \<le> 13) \<or> (28 \<le> c \<and> c \<le> 32) \<or> c = 133 \<or> c = 160 \<or> c = 5760 \<or>
     (8192 \<le> c \<and> c \<le> 8202) \<or> c = 8232 \<or> c = 8233 \<or> c = 8239 \<or> c = 8287 \<or> c = 12288"

definition lstrip :: "pystr \<Rightarrow> pystr" where
  "lstrip s = dropWhile isspace s"

definition rstrip :: "pystr \<Rightarrow> pystr" where
  "rstrip s = rev (dropWhile isspace (rev s))"

definition strip :: "pystr \<Rightarrow> pystr" where
  "strip s = rstrip (lstrip s)"

text \<open>
  \<^verbatim>\<open>s.replace(old, new)\<close>: every non-overlapping occurrence of \<open>old\<close>, found from the
  left, is replaced; an empty \<open>old\<close> matches before every character and at the end.
\<close>

function replace_from :: "pystr \<Rightarrow> pystr \<Rightarrow> pystr \<Rightarrow> pystr" where
  "replace_from old new s =
     (if old = [] then s
      else if prefix old s then new @ replace_from old new (drop (length old) s)
      else (case s of [] \<Rightarrow> [] | c # cs \<Rightarrow> c # replace_from old new cs))"
  by pat_completeness auto
termination
proof (relation "measure (\<lambda>(old, new, s). length s)")
  fix old new s :: pystr
  assume "old \<noteq> []" and "prefix old s"
  then have "0 < length old" and "length old \<le> length s"
    by (simp_all add: prefix_length_le)
  then have "length s - length old < length s"
    by arith
  then show "((old, new, drop (length old) s), (old, new, s)) \<in> measure (\<lambda>(old, new, s). length s)"
    by simp
qed auto

definition replace :: "pystr \<Rightarrow> pystr \<Rightarrow> pystr \<Rightarrow> pystr" where
  "replace s old new =
     (if old = [] then new @ concat (map (\<lambda>c. c # new) s) else replace_from old new s)"

text \<open>The exceptions (all subclasses of \<^verbatim>\<open>Exception\<close>) that the modelled code can raise.\<close>

datatype py_exception = ValueError | KeyError | TypeError | RequestsError | HTTPError | ParserError

section \<open>Helper functions\<close>

text \<open>
  \<^verbatim>\<open>remove_superscripts\<close>: \<^verbatim>\<open>re.sub(pattern, '', text)\<close> with the character class of U+00B2, U+00B3, U+00E9, U+00B0 and U+00B1. The pattern
  is a single character class, so the substitution scans the text from the left and drops
  each character of the class.
\<close>

definition superscript_pattern :: "nat list" where
  "superscript_pattern = [178, 179, 233, 176, 177]"

fun remove_superscripts :: "pystr \<Rightarrow> pystr" where
  "remove_superscripts [] = []"
| "remove_superscripts (c # cs) =
     (if c \<in> set superscript_pattern then remove_superscripts cs
      else c # remove_superscripts cs)"

text \<open>\<^verbatim>\<open>clean_description\<close>: \<^verbatim>\<open>desc[:half]\<close> is \<open>take half desc\<close>, \<^verbatim>\<open>desc[half:]\<close> is \<open>drop half desc\<close>.\<close>

definition clean_description :: "pystr \<Rightarrow> pystr" where
  "clean_description desc =
     (let half = length desc div 2 in
      if strip (take half desc) = strip (drop half desc) then strip (take half desc)
      else strip desc)"

section \<open>The chunker\<close>

text \<open>
  \<^verbatim>\<open>for i in range(0, len(lst), n): yield lst[i:i + n]\<close>. The loop variable runs over
  \<open>0, n, 2n, \<dots>\<close> while it is below \<open>len(lst)\<close>; \<^verbatim>\<open>range\<close> raises \<^verbatim>\<open>ValueError\<close> for a
  zero step and is empty for a negative one. The generator is modelled by the list of the
  chunks it yields.
\<close>

function chunker_from :: "'a list \<Rightarrow> nat \<Rightarrow> nat \<Rightarrow> 'a list list" where
  "chunker_from lst n i =
     (if 0 < n \<and> i < length lst then take n (drop i lst) # chunker_from lst n (i + n)
      else [])"
  by pat_completeness auto
termination
  by (relation "measure (\<lambda>(lst, n, i). length lst - i)") auto

definition chunker :: "'a list \<Rightarrow> int \<Rightarrow> py_exception + 'a list list" where
  "chunker lst n =
     (if n = 0 then Inl ValueError
      else if n < 0 then Inr []
      else Inr (chunker_from lst (nat n) 0))"

section \<open>Unicode tables\<close>

text \<open>
  Three library predicates depend on the Unicode character database of the running
  interpreter: the regular-expression class \<^verbatim>\<open>\d\<close>, \<^verbatim>\<open>str.isdigit\<close> and case-insensitive
  matching under \<^verbatim>\<open>re.IGNORECASE\<close>. On ASCII they are fixed and written out below; for
  code points from U+0080 on the tables are a parameter of the model.
\<close>

record unicode_db =
  decimal :: "nat \<Rightarrow> bool"
  digit :: "nat \<Rightarrow> bool"
  caseless :: "nat \<Rightarrow> nat \<Rightarrow> bool"

definition ascii_db :: unicode_db where
  "ascii_db = \<lparr>decimal = (\<lambda>c. False), digit = (\<lambda>c. False), caseless = (\<lambda>p c. False)\<rparr>"

definition ascii_lower :: "nat \<Rightarrow> nat" where
  "ascii_lower c = (if 65 \<le> c \<and> c \<le> 90 then c + 32 else c)"

definition char_isdigit :: "unicode_db \<Rightarrow> nat \<Rightarrow> bool" where
  "char_isdigit U c = (if c < 128 then 48 \<le> c \<and> c \<le> 57 else digit U c)"

definition isdigit :: "unicode_db \<Rightarrow> pystr \<Rightarrow> bool" where
  "isdigit U s = (s \<noteq> [] \<and> list_all (char_isdigit U) s)"

section \<open>The listing-URL pattern\<close>

text \<open>
  The pattern language needed by \<^verbatim>\<open>PROPERTY24_REGEX\<close>: single-character matchers (a
  literal compared case-insensitively, \<^verbatim>\<open>.\<close>, \<^verbatim>\<open>\d\<close>), repetition of a single-character
  matcher (\<^verbatim>\<open>+\<close>, \<^verbatim>\<open>+?\<close>, \<^verbatim>\<open>*\<close>), optional groups, sequencing and \<^verbatim>\<open>$\<close>. The matcher
  is the backtracking one, written with a continuation for the rest of the pattern;
  a lazy repetition tries the continuation first and a greedy one tries it last, which
  makes no difference to whether a match exists.
\<close>

datatype cls = Lit nat | Dot | Digit

datatype rx = Eps | Chr cls | PlusLazy cls | Plus cls | Star cls | Opt rx | Seq rx rx | Dollar

fun cls_ok :: "unicode_db \<Rightarrow> cls \<Rightarrow> nat \<Rightarrow> bool" where
  "cls_ok U (Lit p) c = (if c < 128 then ascii_lower c = ascii_lower p else caseless U p c)"
| "cls_ok U Dot c = (c \<noteq> 10)"
| "cls_ok U Digit c = (if c < 128 then 48 \<le> c \<and> c \<le> 57 else decimal U c)"

fun star_lazy :: "(nat \<Rightarrow> bool) \<Rightarrow> (pystr \<Rightarrow> bool) \<Rightarrow> pystr \<Rightarrow> bool" where
  "star_lazy p k [] = k []"
| "star_lazy p k (c # cs) = (k (c # cs) \<or> (p c \<and> star_lazy p k cs))"

fun star_greedy :: "(nat \<Rightarrow> bool) \<Rightarrow> (pystr \<Rightarrow> bool) \<Rightarrow> pystr \<Rightarrow> bool" where
  "star_greedy p k [] = k []"
| "star_greedy p k (c # cs) = ((p c \<and> star_greedy p k cs) \<or> k (c # cs))"

primrec rmatch :: "unicode_db \<Rightarrow> rx \<Rightarrow> (pystr \<Rightarrow> bool) \<Rightarrow> pystr \<Rightarrow> bool" where
  "rmatch U Eps k s = k s"
| "rmatch U (Chr a) k s = (case s of [] \<Rightarrow> False | c # cs \<Rightarrow> cls_ok U a c \<and> k cs)"
| "rmatch U (PlusLazy a) k s =
     (case s of [] \<Rightarrow> False | c # cs \<Rightarrow> cls_ok U a c \<and> star_lazy (cls_ok U a) k cs)"
| "rmatch U (Plus a) k s =
     (case s of [] \<Rightarrow> False | c # cs \<Rightarrow> cls_ok U a c \<and> star_greedy (cls_ok U a) k cs)"
| "rmatch U (Star a) k s = star_greedy (cls_ok U a) k s"
| "rmatch U (Opt r) k s = (rmatch U r k s \<or> k s)"
| "rmatch U (Seq r1 r2) k s = rmatch U r1 (rmatch U r2 k) s"
| "rmatch U Dollar k s = ((s = [] \<or> s = [10]) \<and> k s)"

text \<open>
  \<^verbatim>\<open>pattern.match(s)\<close> anchors at the start of \<open>s\<close> and accepts any rest after the
  pattern; its result is used as a truth value only.
\<close>

definition re_match :: "unicode_db \<Rightarrow> rx \<Rightarrow> pystr \<Rightarrow> bool" where
  "re_match U r s = rmatch U r (\<lambda>rest. True) s"

definition lits :: "string \<Rightarrow> rx" where
  "lits s = foldr (\<lambda>c r. Seq (Chr (Lit (of_char c))) r) s Eps"

definition seqs :: "rx list \<Rightarrow> rx" where
  "seqs rs = foldr Seq rs Eps"

text \<open>
  \<^verbatim>\<open>^https://(www\.)?property24\.com/for-sale/.+?/.+?/.+?/\d+/\d+/?(\?.*)?$\<close> with
  \<^verbatim>\<open>re.IGNORECASE\<close>; the leading \<^verbatim>\<open>^\<close> is implied by \<^verbatim>\<open>match\<close>.
\<close>

definition PROPERTY24_REGEX :: rx where
  "PROPERTY24_REGEX = seqs
     [lits ''https://'', Opt (lits ''www.''), lits ''property24.com/for-sale/'',
      PlusLazy Dot, lits ''/'', PlusLazy Dot, lits ''/'', PlusLazy Dot, lits ''/'',
      Plus Digit, lits ''/'', Plus Digit, Opt (lits ''/''),
      Opt (Seq (lits ''?'') (Star Dot)), Dollar]"

section \<open>Parsed documents\<close>

text \<open>
  The parser is an external collaborator. An element is modelled by what the scraper
  reads from it: its text fragments in document order and its attributes.
  \<^verbatim>\<open>get_text(sep, strip=True)\<close> strips every fragment, drops the empty ones and joins
  the rest with the separator.
\<close>

record element =
  strings :: "pystr list"
  attrs :: "(pystr \<times> pystr) list"

fun join :: "pystr \<Rightarrow> pystr list \<Rightarrow> pystr" where
  "join sep [] = []"
| "join sep [x] = x"
| "join sep (x # y # ys) = x @ sep @ join sep (y # ys)"

definition get_text :: "pystr \<Rightarrow> element \<Rightarrow> pystr" where
  "get_text sep e = join sep (filter (\<lambda>s. s \<noteq> []) (map strip (strings e)))"

text \<open>
  A listing page is modelled by the answers to the nine queries \<^verbatim>\<open>extract_listing_data\<close>
  issues, each named after its query.
\<close>

record soup =
  find_p24_price :: "element option"
  find_p24_size :: "element option"
  find_js_readMoreText :: "element option"
  find_js_readMoreContainer :: "element option"
  find_all_p24_listingFeatures :: "element list"
  find_p24_addressPropOverview :: "element option"
  select_breadCrumb_items :: "element list"
  select_one_p24_info :: "element option"
  find_js_lightboxImageWrapper :: "element option"

section \<open>Listing records\<close>

text \<open>
  The record is a Python \<^verbatim>\<open>dict\<close> from field names to strings, a list of strings
  (\<open>features\<close>) or \<^verbatim>\<open>None\<close> (\<open>image_url\<close>). A dict keeps insertion order and an assignment
  to an existing key keeps the key's place, which is what \<open>AList.update\<close> does.
\<close>

datatype pyval = Str pystr | StrList "pystr list" | PyNone

type_synonym listing = "(pystr \<times> pyval) list"

definition dict_set :: "listing \<Rightarrow> pystr \<Rightarrow> pyval \<Rightarrow> listing" where
  "dict_set d k v = AList.update k v d"

definition dict_get :: "listing \<Rightarrow> pystr \<Rightarrow> pyval option" where
  "dict_get d k = map_of d k"

definition colon :: nat where
  "colon = 58"

definition price_rule :: "soup \<Rightarrow> pyval" where
  "price_rule soup =
     (case find_p24_price soup of Some price_elem \<Rightarrow> Str (get_text [] price_elem)
      | None \<Rightarrow> Str (u ''None''))"

definition size_rule :: "soup \<Rightarrow> pyval" where
  "size_rule soup =
     (case find_p24_size soup of
        Some size_elem \<Rightarrow>
          (let size_text = get_text [] size_elem in
           Str (remove_superscripts
             (if colon \<in> set size_text then strip (takeWhile (\<lambda>c. c \<noteq> colon) size_text)
              else size_text)))
      | None \<Rightarrow> Str (u ''None''))"

definition description_rule :: "soup \<Rightarrow> pyval" where
  "description_rule soup =
     (let desc_elem = (case find_js_readMoreText soup of
                         None \<Rightarrow> find_js_readMoreContainer soup
                       | Some e \<Rightarrow> Some e) in
      case desc_elem of
        Some e \<Rightarrow>
          (let raw_desc = replace (get_text (u '' '') e) (u '' Read Less'') [] in
           Str (remove_superscripts (clean_description raw_desc)))
      | None \<Rightarrow> Str (u ''None Found''))"

text \<open>
  One iteration of the feature loop. \<^verbatim>\<open>text.split(":", 1)\<close> gives the text before the
  first colon and the text after it.
\<close>

definition feature_key :: "pystr \<Rightarrow> pystr" where
  "feature_key text = strip (takeWhile (\<lambda>c. c \<noteq> colon) text)"

definition feature_val :: "pystr \<Rightarrow> pystr" where
  "feature_val text = strip (tl (dropWhile (\<lambda>c. c \<noteq> colon) text))"

definition feature_step :: "element \<Rightarrow> listing \<times> pystr list \<Rightarrow> listing \<times> pystr list" where
  "feature_step item st =
     (let data = fst st; features = snd st; text = get_text [] item in
      if colon \<in> set text
      then (dict_set data (feature_key text) (Str (feature_val text)), features)
      else (data, features @ [text]))"

fun feature_loop :: "element list \<Rightarrow> listing \<times> pystr list \<Rightarrow> listing \<times> pystr list" where
  "feature_loop [] st = st"
| "feature_loop (item # items) st = feature_loop items (feature_step item st)"

definition address_rule :: "soup \<Rightarrow> pyval" where
  "address_rule soup =
     (case find_p24_addressPropOverview soup of Some address_elem \<Rightarrow> Str (get_text [] address_elem)
      | None \<Rightarrow> Str (u ''None found''))"

definition crumbs_of :: "unicode_db \<Rightarrow> soup \<Rightarrow> pystr list" where
  "crumbs_of U soup =
     filter (\<lambda>text. text \<notin> set [u ''|'', u ''>'', u ''Back to Results'', u ''Property for Sale'']
                     \<and> \<not> isdigit U text)
       (map (get_text []) (select_breadCrumb_items soup))"

definition listing_no_rule :: "soup \<Rightarrow> pyval" where
  "listing_no_rule soup =
     (case select_one_p24_info soup of Some listing_no_elem \<Rightarrow> Str (get_text [] listing_no_elem)
      | None \<Rightarrow> Str (u ''None''))"

definition image_url_rule :: "soup \<Rightarrow> pyval" where
  "image_url_rule soup =
     (case find_js_lightboxImageWrapper soup of
        Some img_elem \<Rightarrow>
          (case map_of (attrs img_elem) (u ''data-image-url'') of Some v \<Rightarrow> Str v
           | None \<Rightarrow> PyNone)
      | None \<Rightarrow> PyNone)"

text \<open>\<^verbatim>\<open>extract_listing_data\<close>, with the assignments in the order of the source.\<close>

definition extract_listing_data :: "unicode_db \<Rightarrow> soup \<Rightarrow> listing" where
  "extract_listing_data U soup =
     (let data = [];
          data = dict_set data (u ''price'') (price_rule soup);
          data = dict_set data (u ''size'') (size_rule soup);
          data = dict_set data (u ''description'') (description_rule soup);
          (data, features) = feature_loop (find_all_p24_listingFeatures soup) (data, []);
          data = dict_set data (u ''features'') (StrList features);
          data = dict_set data (u ''address'') (address_rule soup);
          crumbs = crumbs_of U soup;
          data = (if length crumbs \<ge> 1 then dict_set data (u ''Province'') (Str (crumbs ! 0)) else data);
          data = (if length crumbs \<ge> 2 then dict_set data (u ''City'') (Str (crumbs ! 1)) else data);
          data = (if length crumbs \<ge> 3 then dict_set data (u ''Town'') (Str (crumbs ! 2)) else data);
          data = dict_set data (u ''ListingNo'') (listing_no_rule soup);
          data = dict_set data (u ''image_url'') (image_url_rule soup)
      in data)"

section \<open>Scraping tasks\<close>

text \<open>
  What a task gets back from \<^verbatim>\<open>session.get\<close>, \<^verbatim>\<open>raise_for_status\<close> and the parser: an
  exception, or the parsed page. A search page is modelled by the \<open>href\<close> values of its
  \<^verbatim>\<open>a[href]\<close> elements in document order.
\<close>

datatype 'a outcome = Raised py_exception | Returned 'a

definition absolute_href :: "pystr \<Rightarrow> pystr" where
  "absolute_href href =
     (if prefix (u ''/'') href then u ''https://www.property24.com'' @ href else href)"

text \<open>
  One iteration of the link loop of \<^verbatim>\<open>async_scrape_page\<close>: the membership test on the
  global \<open>scraped_links\<close> and the two \<^verbatim>\<open>add\<close> calls, with no suspension point between
  them. The page's own set \<open>links\<close> is kept as a duplicate-free list; the order in which
  \<^verbatim>\<open>list(links)\<close> enumerates it is not fixed by Python.
\<close>

definition set_add :: "'a \<Rightarrow> 'a list \<Rightarrow> 'a list" where
  "set_add x xs = (if x \<in> set xs then xs else xs @ [x])"

definition link_guard :: "unicode_db \<Rightarrow> pystr \<Rightarrow> pystr set \<Rightarrow> bool" where
  "link_guard U href scraped_links \<longleftrightarrow>
     re_match U PROPERTY24_REGEX href \<and> href \<notin> scraped_links"

definition link_step :: "unicode_db \<Rightarrow> pystr \<Rightarrow> pystr list \<times> pystr set \<Rightarrow> pystr list \<times> pystr set" where
  "link_step U a st =
     (let links = fst st; scraped_links = snd st; href = absolute_href a in
      if link_guard U href scraped_links
      then (set_add href links, insert href scraped_links)
      else (links, scraped_links))"

fun link_loop :: "unicode_db \<Rightarrow> pystr list \<Rightarrow> pystr list \<times> pystr set \<Rightarrow> pystr list \<times> pystr set" where
  "link_loop U [] st = st"
| "link_loop U (a # as) st = link_loop U as (link_step U a st)"

text \<open>The body of the \<^verbatim>\<open>try\<close> block, and the task with its \<^verbatim>\<open>except Exception\<close> handler.\<close>

definition scrape_page_try ::
  "unicode_db \<Rightarrow> pystr list outcome \<Rightarrow> pystr set \<Rightarrow> py_exception + (pystr list \<times> pystr set)" where
  "scrape_page_try U page scraped_links =
     (case page of Raised e \<Rightarrow> Inl e
      | Returned hrefs \<Rightarrow> Inr (link_loop U hrefs ([], scraped_links)))"

definition async_scrape_page ::
  "unicode_db \<Rightarrow> pystr list outcome \<Rightarrow> pystr set \<Rightarrow> pystr list \<times> pystr set" where
  "async_scrape_page U page scraped_links =
     (case scrape_page_try U page scraped_links of
        Inl e \<Rightarrow> ([], scraped_links)
      | Inr r \<Rightarrow> r)"

definition scrape_listing_try ::
  "unicode_db \<Rightarrow> soup outcome \<Rightarrow> pystr \<Rightarrow> pyval set \<Rightarrow> py_exception + (listing option \<times> pyval set)" where
  "scrape_listing_try U page url listing_nums =
     (case page of Raised e \<Rightarrow> Inl e
      | Returned soup \<Rightarrow>
          (let listing_data = dict_set (extract_listing_data U soup) (u ''url'') (Str url) in
           case dict_get listing_data (u ''ListingNo'') of
             None \<Rightarrow> Inl KeyError
           | Some no \<Rightarrow>
               if no \<noteq> Str (u ''None'') \<and> (case no of StrList l \<Rightarrow> True | _ \<Rightarrow> False)
               then Inl TypeError
               else if no \<noteq> Str (u ''None'') \<and> no \<notin> listing_nums
               then Inr (Some listing_data, insert no listing_nums)
               else if no = Str (u ''None'')
               then Inr (Some listing_data, listing_nums)
               else Inr (None, listing_nums)))"

definition async_scrape_listing ::
  "unicode_db \<Rightarrow> soup outcome \<Rightarrow> pystr \<Rightarrow> pyval set \<Rightarrow> listing option \<times> pyval set" where
  "async_scrape_listing U page url listing_nums =
     (case scrape_listing_try U page url listing_nums of
        Inl e \<Rightarrow> (None, listing_nums)
      | Inr r \<Rightarrow> r)"

section \<open>Running the tasks\<close>

text \<open>
  The tasks of a batch are suspended only in their fetch. The event loop resumes them
  one at a time, in an order of its choosing, and each then runs to its \<^verbatim>\<open>return\<close>
  without interruption. A run is therefore modelled by the list of the tasks' fetch
  outcomes in the order in which the tasks resume, with the shared set threaded through.
  \<^verbatim>\<open>asyncio.gather\<close> hands the results back in task order, a permutation of the order
  computed here.
\<close>

fun run_page_tasks ::
  "unicode_db \<Rightarrow> pystr list outcome list \<Rightarrow> pystr set \<Rightarrow> pystr list list \<times> pystr set" where
  "run_page_tasks U [] scraped_links = ([], scraped_links)"
| "run_page_tasks U (page # pages) scraped_links =
     (let (links, scraped_links') = async_scrape_page U page scraped_links;
          (rest, scraped_links'') = run_page_tasks U pages scraped_links'
      in (links # rest, scraped_links''))"

fun run_listing_tasks ::
  "unicode_db \<Rightarrow> (soup outcome \<times> pystr) list \<Rightarrow> pyval set \<Rightarrow> listing option list \<times> pyval set" where
  "run_listing_tasks U [] listing_nums = ([], listing_nums)"
| "run_listing_tasks U (task # tasks) listing_nums =
     (let (data, listing_nums') = async_scrape_listing U (fst task) (snd task) listing_nums;
          (rest, listing_nums'') = run_listing_tasks U tasks listing_nums'
      in (data # rest, listing_nums''))"

text \<open>
  How \<^verbatim>\<open>main\<close> collects the results: \<^verbatim>\<open>all_listing_links.extend(links)\<close> for every page
  result, and \<^verbatim>\<open>if data: data_bun.append(data)\<close> for every listing result (a dict is
  true when it is not empty).
\<close>

fun extend_links :: "pystr list list \<Rightarrow> pystr list \<Rightarrow> pystr list" where
  "extend_links [] all_listing_links = all_listing_links"
| "extend_links (links # batch_results) all_listing_links =
     extend_links batch_results (all_listing_links @ links)"

fun append_data :: "listing option list \<Rightarrow> listing list \<Rightarrow> listing list" where
  "append_data [] data_bun = data_bun"
| "append_data (data # batch_results) data_bun =
     append_data batch_results
       (case data of None \<Rightarrow> data_bun
        | Some d \<Rightarrow> if d \<noteq> [] then data_bun @ [d] else data_bun)"

text \<open>
  The reservation attempts of a run, one per anchor, in the order in which they execute:
  \<open>reserve_trace\<close> records for each attempt whether its guard held, that is whether it
  found its URL absent and added it.
\<close>

fun reserve_trace :: "unicode_db \<Rightarrow> pystr list \<Rightarrow> pystr set \<Rightarrow> bool list" where
  "reserve_trace U [] scraped_links = []"
| "reserve_trace U (a # as) scraped_links =
     link_guard U (absolute_href a) scraped_links
       # reserve_trace U as (snd (link_step U a ([], scraped_links)))"

section \<open>Notions for stating the properties of the extractor\<close>

text \<open>
  The texts of the feature elements in document order; the key and value pairs of those
  that contain a colon; the texts of those that do not; the value the loop leaves under a
  key (that of the last feature element with that key); and, for each field name the
  extractor assigns itself, the value its own rule produces together with the list of the
  names it assigns after the feature loop.
\<close>

definition feature_texts :: "soup \<Rightarrow> pystr list" where
  "feature_texts soup = map (get_text []) (find_all_p24_listingFeatures soup)"

definition promoted :: "pystr list \<Rightarrow> (pystr \<times> pystr) list" where
  "promoted texts = map (\<lambda>t. (feature_key t, feature_val t)) (filter (\<lambda>t. colon \<in> set t) texts)"

definition plain_features :: "pystr list \<Rightarrow> pystr list" where
  "plain_features texts = filter (\<lambda>t. colon \<notin> set t) texts"

definition last_promoted :: "pystr list \<Rightarrow> pystr \<Rightarrow> pystr option" where
  "last_promoted texts k = map_of (rev (promoted texts)) k"

definition own_rule :: "unicode_db \<Rightarrow> soup \<Rightarrow> pystr \<Rightarrow> pyval option" where
  "own_rule U soup k =
     (if k = u ''price'' then Some (price_rule soup)
      else if k = u ''size'' then Some (size_rule soup)
      else if k = u ''description'' then Some (description_rule soup)
      else if k = u ''features'' then Some (StrList (plain_features (feature_texts soup)))
      else if k = u ''address'' then Some (address_rule soup)
      else if k = u ''Province'' then
        (if length (crumbs_of U soup) \<ge> 1 then Some (Str (crumbs_of U soup ! 0)) else None)
      else if k = u ''City'' then
        (if length (crumbs_of U soup) \<ge> 2 then Some (Str (crumbs_of U soup ! 1)) else None)
      else if k = u ''Town'' then
        (if length (crumbs_of U soup) \<ge> 3 then Some (Str (crumbs_of U soup ! 2)) else None)
      else if k = u ''ListingNo'' then Some (listing_no_rule soup)
      else if k = u ''image_url'' then Some (image_url_rule soup)
      else None)"

definition assigned_after_features :: "unicode_db \<Rightarrow> soup \<Rightarrow> pystr list" where
  "assigned_after_features U soup =
     [u ''features'', u ''address''] @
     (if length (crumbs_of U soup) \<ge> 1 then [u ''Province''] else []) @
     (if length (crumbs_of U soup) \<ge> 2 then [u ''City''] else []) @
     (if length (crumbs_of U soup) \<ge> 3 then [u ''Town''] else []) @
     [u ''ListingNo'', u ''image_url'']"

text \<open>Small documents for examples: a page where no query finds anything, and an element with one text.\<close>

definition empty_soup :: soup where
  "empty_soup = \<lparr>find_p24_price = None, find_p24_size = None, find_js_readMoreText = None,
     find_js_readMoreContainer = None, find_all_p24_listingFeatures = [],
     find_p24_addressPropOverview = None, select_breadCrumb_items = [],
     select_one_p24_info = None, find_js_lightboxImageWrapper = None\<rparr>"

definition text_element :: "pystr \<Rightarrow> element" where
  "text_element t = \<lparr>strings = [t], attrs = []\<rparr>"

section \<open>Notions for stating the properties of a run\<close>

text \<open>
  The identifier of a record; the results of a run that carry a given identifier; and
  whether a task's fetch returned a page rather than raising.
\<close>

definition listing_no_of :: "listing \<Rightarrow> pyval option" where
  "listing_no_of d = dict_get d (u ''ListingNo'')"

definition with_no :: "pyval \<Rightarrow> listing option list \<Rightarrow> listing option list" where
  "with_no I rs = filter (\<lambda>r. case r of None \<Rightarrow> False | Some d \<Rightarrow> listing_no_of d = Some I) rs"

definition returned :: "'a outcome \<Rightarrow> bool" where
  "returned t = (case t of Raised e \<Rightarrow> False | Returned x \<Rightarrow> True)"

section \<open>Properties of the string helpers\<close>

lemma lstrip_ws: "list_all isspace P \<Longrightarrow> lstrip (P @ X) = lstrip X"
  by (induction P) (auto simp: lstrip_def)

lemma rstrip_ws: "list_all isspace Q \<Longrightarrow> rstrip (X @ Q) = rstrip X"
  unfolding rstrip_def by (induction Q rule: rev_induct) (auto)

lemma lstrip_all_ws: "list_all isspace P \<Longrightarrow> lstrip P = []"
  by (induction P) (auto simp: lstrip_def)

lemma rstrip_Nil: "rstrip [] = []" by (simp add: rstrip_def)

lemma length_lstrip: "length (lstrip s) \<le> length s"
  by (simp add: lstrip_def length_dropWhile_le)

lemma length_rstrip: "length (rstrip s) \<le> length s"
  unfolding rstrip_def using length_dropWhile_le[of isspace "rev s"] by simp

lemma dropWhile_same_length: "length (dropWhile P s) = length s \<Longrightarrow> dropWhile P s = s"
proof (cases s)
  case Nil then show ?thesis by simp
next
  case (Cons a list)
  assume l: "length (dropWhile P s) = length s"
  show ?thesis
  proof (cases "P a")
    case True
    then have "length (dropWhile P s) \<le> length list"
      using Cons by (simp add: length_dropWhile_le)
    with l Cons show ?thesis by simp
  next
    case False then show ?thesis using Cons by simp
  qed
qed

lemma trimmed_lstrip: assumes "strip H = H" shows "lstrip H = H"
proof -
  have "length H = length (rstrip (lstrip H))" using assms by (simp add: strip_def)
  also have "\<dots> \<le> length (lstrip H)" by (rule length_rstrip)
  finally have "length (lstrip H) = length H" using length_lstrip[of H] by simp
  then show ?thesis unfolding lstrip_def by (rule dropWhile_same_length)
qed

lemma trimmed_rstrip: assumes "strip H = H" shows "rstrip H = H"
  using assms trimmed_lstrip[OF assms] by (simp add: strip_def)

lemma dropWhile_self_append:
  assumes "xs \<noteq> []" "dropWhile P xs = xs" shows "dropWhile P (xs @ ys) = xs @ ys"
proof (cases xs)
  case Nil with assms(1) show ?thesis by simp
next
  case (Cons a l)
  have "\<not> P a"
  proof
    assume "P a"
    then have "dropWhile P l = a # l" using assms(2) Cons by simp
    then have "Suc (length l) \<le> length l" using length_dropWhile_le[of P l] by simp
    then show False by simp
  qed
  then show ?thesis using Cons by simp
qed

lemma lstrip_trimmed_append: assumes "lstrip H = H" "H \<noteq> []" shows "lstrip (H @ X) = H @ X"
  using assms unfolding lstrip_def by (simp add: dropWhile_self_append)

lemma rstrip_trimmed_prepend: assumes "rstrip H = H" "H \<noteq> []" shows "rstrip (X @ H) = X @ H"
proof -
  have "dropWhile isspace (rev H) = rev H" using assms(1) unfolding rstrip_def
    by (metis rev_rev_ident)
  then have "dropWhile isspace (rev H @ rev X) = rev H @ rev X"
    using assms(2) by (simp add: dropWhile_self_append)
  then show ?thesis by (simp add: rstrip_def)
qed

lemma strip_padded:
  assumes "strip H = H" "list_all isspace P" "list_all isspace Q"
  shows "strip (P @ H @ Q) = H"
proof (cases "H = []")
  case True
  then have "list_all isspace (P @ Q)" using assms by simp
  then have "lstrip (P @ Q) = []" by (rule lstrip_all_ws)
  then show ?thesis using True by (simp add: strip_def rstrip_Nil)
next
  case False
  have "lstrip (P @ H @ Q) = lstrip (H @ Q)" using assms(2) by (rule lstrip_ws)
  also have "\<dots> = H @ Q" using trimmed_lstrip[OF assms(1)] False by (rule lstrip_trimmed_append)
  finally have "strip (P @ H @ Q) = rstrip (H @ Q)" by (simp add: strip_def)
  also have "\<dots> = rstrip H" using assms(3) by (rule rstrip_ws)
  also have "\<dots> = H" using assms(1) by (rule trimmed_rstrip)
  finally show ?thesis .
qed

lemma lstrip_idem: "lstrip (lstrip s) = lstrip s"
  unfolding lstrip_def by simp

lemma rstrip_idem: "rstrip (rstrip s) = rstrip s"
  unfolding rstrip_def by simp

lemma lstrip_rstrip_lstrip: "lstrip (rstrip (lstrip s)) = rstrip (lstrip s)"
proof (cases "rstrip (lstrip s) = []")
  case True then show ?thesis by (simp add: lstrip_def)
next
  case False
  then have ne: "lstrip s \<noteq> []" by (auto simp: rstrip_def)
  then have "\<not> isspace (hd (lstrip s))" unfolding lstrip_def by (simp add: hd_dropWhile)
  moreover have "prefix (rstrip (lstrip s)) (lstrip s)"
    unfolding rstrip_def
    by (metis dropWhile_eq_drop rev_drop rev_rev_ident take_is_prefix)
  ultimately have "\<not> isspace (hd (rstrip (lstrip s)))"
    using False by (metis hd_append2 prefix_def)
  then show ?thesis using False unfolding lstrip_def by (cases "rstrip (dropWhile isspace s)") (auto simp: lstrip_def)
qed

lemma strip_idem: "strip (strip s) = strip s"
  by (simp add: strip_def lstrip_rstrip_lstrip rstrip_idem)

subsection \<open>Removing superscripts\<close>

lemma remove_superscripts_filter:
  "remove_superscripts t = filter (\<lambda>c. c \<notin> {178, 179, 233, 176, 177}) t"
  by (induction t) (auto simp: superscript_pattern_def)

text \<open>
  Claim C10. \<open>remove_superscripts\<close> deletes exactly the occurrences of the five code points
  U+00B2, U+00B3, U+00E9, U+00B0 and U+00B1 and keeps every other character in its place
  and order; a text that contains U+00E9 (the accented letter of an ordinary word) is
  therefore changed; and applying the function twice is the same as applying it once.
\<close>

theorem remove_superscripts_spec:
  "remove_superscripts t = filter (\<lambda>c. c \<notin> {178, 179, 233, 176, 177}) t
   \<and> (233 \<in> set t \<longrightarrow> remove_superscripts t \<noteq> t)
   \<and> remove_superscripts (remove_superscripts t) = remove_superscripts t"
proof (intro conjI impI)
  show f: "remove_superscripts t = filter (\<lambda>c. c \<notin> {178, 179, 233, 176, 177}) t"
    by (rule remove_superscripts_filter)
  show "remove_superscripts (remove_superscripts t) = remove_superscripts t"
    by (simp add: remove_superscripts_filter)
  assume "233 \<in> set t"
  moreover have "233 \<notin> set (remove_superscripts t)"
    by (simp add: remove_superscripts_filter)
  ultimately show "remove_superscripts t \<noteq> t" by metis
qed

theorem remove_superscripts_witness:
  "233 \<in> set [99, 97, 102, 233::nat] \<and> remove_superscripts [99, 97, 102, 233] = [99, 97, 102]
   \<and> remove_superscripts [99, 97, 102, 233] \<noteq> [99, 97, 102, 233]"
  using remove_superscripts_spec [of "[99, 97, 102, 233]"] by simp

subsection \<open>Cleaning descriptions\<close>

lemma clean_description_gap:
  assumes D: "D = H @ P @ H @ Q" and H: "strip H = H"
    and P: "list_all isspace P" and Q: "list_all isspace Q" and len: "length Q \<le> Suc (length P)"
  shows "clean_description D = H"
proof -
  define m where "m = (length P + length Q) div 2"
  have m: "m \<le> length P" using len unfolding m_def by simp
  have half: "length D div 2 = length H + m"
    unfolding D m_def by simp
  have t: "take (length D div 2) D = [] @ H @ take m P"
    unfolding half using m by (simp add: D)
  have d: "drop (length D div 2) D = drop m P @ H @ Q"
    unfolding half using m by (simp add: D)
  have wt: "list_all isspace (take m P)" and wd: "list_all isspace (drop m P)"
    using P by (auto simp: list_all_iff dest: in_set_takeD in_set_dropD)
  have "strip ([] @ H @ take m P) = H"
    by (rule strip_padded [OF H _ wt]) simp
  moreover have "strip (drop m P @ H @ Q) = H"
    by (rule strip_padded [OF H wd Q])
  ultimately have "strip (take (length D div 2) D) = H" "strip (drop (length D div 2) D) = H"
    unfolding t d by simp_all
  then show ?thesis by (simp add: clean_description_def)
qed

lemma clean_description_trimmed: "strip (clean_description D) = clean_description D"
  by (simp add: clean_description_def Let_def strip_idem)

text \<open>
  Claim C6, as amended. The description is cut at \<open>length D div 2\<close>, not at the end of a
  repeated text. When \<open>D\<close> is \<open>H @ P @ H @ Q\<close> with \<open>H\<close> trimmed, \<open>P\<close> and \<open>Q\<close> whitespace and
  \<open>Q\<close> at most one character longer than \<open>P\<close>, the cut falls into the gap \<open>P\<close> and the
  result is \<open>H\<close>. When the two halves differ after trimming, the result is \<open>strip D\<close>.
  The result is always trimmed, and a trimmed string whose halves differ after trimming
  is returned unchanged.
\<close>

theorem clean_description_spec:
  "(\<forall>H P Q. D = H @ P @ H @ Q \<and> strip H = H \<and> list_all isspace P \<and> list_all isspace Q
        \<and> length Q \<le> Suc (length P) \<longrightarrow> clean_description D = H)
   \<and> (strip (take (length D div 2) D) \<noteq> strip (drop (length D div 2) D)
        \<longrightarrow> clean_description D = strip D)
   \<and> strip (clean_description D) = clean_description D
   \<and> (strip D = D \<and> strip (take (length D div 2) D) \<noteq> strip (drop (length D div 2) D)
        \<longrightarrow> clean_description D = D)"
  using clean_description_gap [of D] clean_description_trimmed [of D]
  by (auto simp: clean_description_def)

theorem clean_description_witness:
  "clean_description (u ''abc abc'') = u ''abc''
   \<and> strip (u ''abcd'') = u ''abcd''
   \<and> strip (take (length (u ''abcd'') div 2) (u ''abcd''))
         \<noteq> strip (drop (length (u ''abcd'') div 2) (u ''abcd''))
   \<and> clean_description (u ''abcd'') = u ''abcd''"
proof -
  have ev: "strip (u ''abc'') = u ''abc''" "list_all isspace (u '' '')" "list_all isspace []"
    "u ''abc abc'' = u ''abc'' @ u '' '' @ u ''abc'' @ []" "length ([]::pystr) \<le> Suc (length (u '' ''))"
    by (simp_all add: u_def strip_def lstrip_def rstrip_def isspace_def)
  have a: "clean_description (u ''abc abc'') = u ''abc''"
    using clean_description_spec [of "u ''abc abc''", THEN conjunct1, rule_format,
        of "u ''abc''" "u '' ''" "[]"] ev by blast
  have b: "strip (u ''abcd'') = u ''abcd''"
    "strip (take (length (u ''abcd'') div 2) (u ''abcd''))
         \<noteq> strip (drop (length (u ''abcd'') div 2) (u ''abcd''))"
    by (simp_all add: u_def strip_def lstrip_def rstrip_def isspace_def)
  have c: "clean_description (u ''abcd'') = u ''abcd''"
    using clean_description_spec [of "u ''abcd''"] b by blast
  show ?thesis using a b c by blast
qed

text \<open>
  The claim as first stated fails: a repeated text followed by four blanks is not reduced
  to one copy, and cleaning \<open>aaaa\<close> twice differs from cleaning it once.
\<close>

theorem clean_description_counterexample:
  "strip (u ''abc    '') = u ''abc''
   \<and> clean_description (u ''abc'' @ u ''abc    '') \<noteq> u ''abc''
   \<and> clean_description (clean_description (u ''aaaa'')) \<noteq> clean_description (u ''aaaa'')"
  by (simp add: clean_description_def u_def strip_def lstrip_def rstrip_def isspace_def)

subsection \<open>The chunker\<close>

declare chunker_from.simps [simp del]

lemma chunker_from_step:
  "0 < n \<Longrightarrow> i < length lst \<Longrightarrow>
     chunker_from lst n i = take n (drop i lst) # chunker_from lst n (i + n)"
  by (subst chunker_from.simps) simp

lemma chunker_from_done:
  "length lst \<le> i \<Longrightarrow> chunker_from lst n i = []"
  by (subst chunker_from.simps) simp

lemma concat_chunker_from:
  "0 < n \<Longrightarrow> concat (chunker_from lst n i) = drop i lst"
proof (induction lst n i rule: chunker_from.induct)
  case (1 lst n i)
  show ?case
  proof (cases "i < length lst")
    case True
    have "concat (chunker_from lst n i) = take n (drop i lst) @ drop (i + n) lst"
      using 1 True by (simp add: chunker_from_step)
    also have "drop (i + n) lst = drop n (drop i lst)"
      by (simp add: add.commute)
    finally show ?thesis by (simp only: append_take_drop_id)
  next
    case False
    then show ?thesis by (simp add: chunker_from_done)
  qed
qed

lemma ceil_div_step:
  fixes r n :: nat
  assumes "0 < n" "0 < r"
  shows "(r + n - 1) div n = Suc ((r - n + n - 1) div n)"
proof (cases "n \<le> r")
  case True
  have e1: "r + n - 1 = (r - 1) + n" using assms by arith
  have e2: "r - n + n - 1 = r - 1" using True by arith
  have "((r - 1) + n) div n = Suc ((r - 1) div n)" using assms(1) by simp
  then show ?thesis by (simp only: e1 e2)
next
  case False
  have e1: "r + n - 1 = (r - 1) + n" using assms by arith
  have e2: "r - n + n - 1 = n - 1" using False by arith
  have "(r - 1) div n = 0" using False assms by simp
  moreover have "(n - 1) div n = 0" using assms(1) by simp
  moreover have "((r - 1) + n) div n = Suc ((r - 1) div n)" using assms(1) by simp
  ultimately show ?thesis by (simp only: e1 e2)
qed

lemma length_chunker_from:
  "0 < n \<Longrightarrow> length (chunker_from lst n i) = (length lst - i + n - 1) div n"
proof (induction lst n i rule: chunker_from.induct)
  case (1 lst n i)
  show ?case
  proof (cases "i < length lst")
    case True
    have "length (chunker_from lst n i) = Suc ((length lst - (i + n) + n - 1) div n)"
      using 1 True by (simp add: chunker_from_step)
    also have "length lst - (i + n) = (length lst - i) - n" by simp
    also have "Suc ((length lst - i - n + n - 1) div n) = (length lst - i + n - 1) div n"
      using ceil_div_step[of n "length lst - i"] 1(2) True by simp
    finally show ?thesis .
  next
    case False
    then show ?thesis using 1(2) by (simp add: chunker_from_done)
  qed
qed

lemma nth_chunker_from:
  "0 < n \<Longrightarrow> k < length (chunker_from lst n i) \<Longrightarrow>
     chunker_from lst n i ! k = take n (drop (i + k * n) lst)"
proof (induction lst n i arbitrary: k rule: chunker_from.induct)
  case (1 lst n i)
  show ?case
  proof (cases "i < length lst")
    case True
    note step = chunker_from_step[OF 1(2) True]
    show ?thesis
    proof (cases k)
      case 0
      then show ?thesis by (simp add: step)
    next
      case (Suc j)
      then have "j < length (chunker_from lst n (i + n))" using 1(3) by (simp add: step)
      then have "chunker_from lst n (i + n) ! j = take n (drop (i + n + j * n) lst)"
        using 1(1)[of j] 1(2) True by simp
      then show ?thesis using Suc by (simp add: step add.assoc)
    qed
  next
    case False
    then show ?thesis using 1(3) by (simp add: chunker_from_done)
  qed
qed

lemma ceiling_nat_div:
  fixes N B :: nat
  assumes "0 < B"
  shows "\<lceil>real N / real B\<rceil> = int ((N + B - 1) div B)"
proof -
  define q where "q = (N + B - 1) div B"
  have Bpos: "0 < real B" using assms by simp
  have "N + B - 1 < (q + 1) * B"
    unfolding q_def using assms
    by (metis Suc_eq_plus1 dividend_less_times_div mult.commute mult_Suc)
  then have "N \<le> q * B" using assms by simp
  then have "real N \<le> real q * real B"
    by (metis of_nat_le_iff of_nat_mult)
  then have a: "real N / real B \<le> real q"
    using Bpos by (simp add: pos_divide_le_eq)
  have "q * B \<le> N + B - 1" unfolding q_def by simp
  then have "q * B < N + B" using assms by simp
  then have "real q * real B < real N + real B"
    by (metis of_nat_less_iff of_nat_mult of_nat_add)
  then have "(real q - 1) * real B < real N" by (simp add: algebra_simps)
  then have b: "real q - 1 < real N / real B"
    using Bpos by (simp add: pos_less_divide_eq)
  have "\<lceil>real N / real B\<rceil> = int q"
    by (rule ceiling_unique) (use a b in simp_all)
  then show ?thesis unfolding q_def .
qed

lemma ceil_div_mod:
  fixes N n :: nat
  assumes "0 < n"
  shows "(N + n - 1) div n = (if N mod n = 0 then N div n else Suc (N div n))"
proof -
  have n0: "n \<noteq> 0" using assms by simp
  have N: "N = N div n * n + N mod n" by simp
  show ?thesis
  proof (cases "N mod n = 0")
    case True
    then have "N = N div n * n" using N by simp
    then have "N + n - 1 = N div n * n + (n - 1)" using assms by simp
    then have "(N + n - 1) div n = (N div n * n + (n - 1)) div n" by simp
    also have "\<dots> = N div n + (n - 1) div n" using n0 by (rule div_mult_self3)
    also have "(n - 1) div n = 0" using assms by simp
    finally show ?thesis using True by simp
  next
    case False
    then have pos: "0 < N mod n" by simp
    have "N + n - 1 = N div n * n + (N mod n + n - 1)" using N assms by linarith
    also have "N mod n + n - 1 = 1 * n + (N mod n - 1)" using pos by simp
    finally have "(N + n - 1) div n = (N div n * n + (1 * n + (N mod n - 1))) div n" by simp
    also have "\<dots> = N div n + (1 * n + (N mod n - 1)) div n" using n0 by (rule div_mult_self3)
    also have "(1 * n + (N mod n - 1)) div n = 1 + (N mod n - 1) div n" using n0 by (rule div_mult_self3)
    also have "(N mod n - 1) div n = 0"
    proof -
      have "N mod n < n" using assms by simp
      then have "N mod n - 1 < n" by simp
      then show ?thesis by simp
    qed
    finally show ?thesis using False by simp
  qed
qed

lemma length_nth_chunker_from:
  assumes n: "0 < n" and k: "k < length (chunker_from lst n 0)"
  shows "length (chunker_from lst n 0 ! k) =
           (if Suc k < length (chunker_from lst n 0) then n
            else if length lst mod n \<noteq> 0 then length lst mod n else n)"
proof -
  define N where "N = length lst"
  define q where "q = length (chunker_from lst n 0)"
  have q: "q = (if N mod n = 0 then N div n else Suc (N div n))"
    unfolding q_def N_def using length_chunker_from[OF n, of lst 0] ceil_div_mod[OF n, of "length lst"]
    by simp
  have len: "length (chunker_from lst n 0 ! k) = min n (N - k * n)"
    using nth_chunker_from[OF n k] by (simp add: N_def min.commute)
  have N: "N = N div n * n + N mod n" by simp
  show ?thesis
  proof (cases "Suc k < q")
    case True
    then have "Suc k \<le> N div n" using q by (auto split: if_splits)
    then have "Suc k * n \<le> N div n * n" by (rule mult_le_mono1)
    then have "Suc k * n \<le> N" using N by linarith
    then have "n \<le> N - k * n" by simp
    then show ?thesis using True len by (simp add: q_def)
  next
    case False
    then have kq: "Suc k = q" using k by (simp add: q_def)
    show ?thesis
    proof (cases "N mod n = 0")
      case True
      then have "Suc k = N div n" using kq q by simp
      then have "N = Suc k * n" using N True by simp
      then have "N - k * n = n" by simp
      then show ?thesis using False len True by (simp add: q_def N_def)
    next
      case F: False
      then have "k = N div n" using kq q by simp
      then have "N - k * n = N mod n" using N by (metis add_diff_cancel_left')
      moreover have "N mod n < n" using n by simp
      ultimately show ?thesis using False len F by (simp add: q_def N_def)
    qed
  qed
qed

text \<open>
  Claim C5. For a batch size \<open>B > 0\<close> the chunker returns \<open>ceil(N / B)\<close> groups for a list of
  length \<open>N\<close>; their concatenation is the list itself, in order; every group but the last
  has size \<open>B\<close>, and the last has size \<open>N mod B\<close> when that is not zero (and \<open>B\<close> otherwise).
  In particular 25 tasks in batches of 10 give three groups of sizes 10, 10 and 5.
\<close>

theorem chunker_partition:
  assumes "0 < B"
  shows "\<exists>gs. chunker lst B = Inr gs
      \<and> int (length gs) = \<lceil>real (length lst) / real_of_int B\<rceil>
      \<and> concat gs = lst
      \<and> (\<forall>k < length gs. length (gs ! k) =
            (if Suc k < length gs then nat B
             else if length lst mod nat B \<noteq> 0 then length lst mod nat B else nat B))
      \<and> (length lst = 25 \<and> B = 10 \<longrightarrow> map length gs = [10, 10, 5])"
proof -
  define n where "n = nat B"
  define gs where "gs = chunker_from lst n 0"
  have n: "0 < n" and B: "B = int n" using assms by (simp_all add: n_def)
  have c: "chunker lst B = Inr gs" using assms by (simp add: chunker_def gs_def n_def)
  have l: "int (length gs) = \<lceil>real (length lst) / real_of_int B\<rceil>"
    using length_chunker_from[OF n, of lst 0] ceiling_nat_div[OF n, of "length lst"]
    by (simp add: gs_def B)
  have cc: "concat gs = lst" using concat_chunker_from[OF n, of lst 0] by (simp add: gs_def)
  have sz: "\<forall>k < length gs. length (gs ! k) =
            (if Suc k < length gs then n else if length lst mod n \<noteq> 0 then length lst mod n else n)"
    unfolding gs_def by (intro allI impI) (rule length_nth_chunker_from [OF n])
  have ex: "map length gs = [10, 10, 5]" if "length lst = 25" "B = 10"
  proof -
    have n10: "n = 10" using that by (simp add: n_def)
    have l3: "length gs = 3" using length_chunker_from[OF n, of lst 0] that n10 by (simp add: gs_def)
    have l3': "length gs = Suc (Suc (Suc 0))" using l3 by simp
    have "length (gs ! 0) = 10" "length (gs ! Suc 0) = 10" "length (gs ! Suc (Suc 0)) = 5"
      using sz [rule_format, of 0] sz [rule_format, of "Suc 0"] sz [rule_format, of "Suc (Suc 0)"]
        l3' n10 that by simp_all
    then show ?thesis using l3'
      by (cases gs; simp; cases "tl gs"; simp; cases "tl (tl gs)"; simp)
  qed
  have "chunker lst B = Inr gs
      \<and> int (length gs) = \<lceil>real (length lst) / real_of_int B\<rceil>
      \<and> concat gs = lst
      \<and> (\<forall>k < length gs. length (gs ! k) =
            (if Suc k < length gs then nat B
             else if length lst mod nat B \<noteq> 0 then length lst mod nat B else nat B))
      \<and> (length lst = 25 \<and> B = 10 \<longrightarrow> map length gs = [10, 10, 5])"
    using c l cc sz ex unfolding n_def by blast
  then show ?thesis by (rule exI)
qed


lemma chunker_example: "chunker [1..<26] 10 = Inr [[1..<11], [11..<21], [21..<26]]"
proof -
  have a: "chunker_from [1..<26] 10 0 = take 10 (drop 0 [1..<26]) # chunker_from [1..<26] 10 (0 + 10)"
    by (rule chunker_from_step) simp_all
  have b: "chunker_from [1..<26] 10 10 = take 10 (drop 10 [1..<26]) # chunker_from [1..<26] 10 (10 + 10)"
    by (rule chunker_from_step) simp_all
  have c: "chunker_from [1..<26] 10 20 = take 10 (drop 20 [1..<26]) # chunker_from [1..<26] 10 (20 + 10)"
    by (rule chunker_from_step) simp_all
  have d: "chunker_from [1..<26] 10 30 = []"
    by (rule chunker_from_done) simp
  have "chunker_from [1..<26] 10 0 = [[1..<11], [11..<21], [21..<26]]"
    using a b c d by simp
  then show ?thesis by (simp add: chunker_def)
qed

theorem chunker_partition_witness:
  "(0::int) < 10 \<and> chunker [1..<26] 10 = Inr [[1..<11], [11..<21], [21..<26]]
   \<and> map length [[1..<11], [11..<21], [21..<26]] = [10, 10, 5]"
proof -
  have h: "(0::int) < 10" by simp
  have l: "length [1..<26] = 25 \<and> (10::int) = 10" by simp
  from chunker_partition [OF h, of "[1..<26]"] obtain gs where
    all: "chunker [1..<26] 10 = Inr gs
      \<and> int (length gs) = \<lceil>real (length [1..<26]) / real_of_int 10\<rceil>
      \<and> concat gs = [1..<26]
      \<and> (\<forall>k < length gs. length (gs ! k) =
            (if Suc k < length gs then nat 10
             else if length [1..<26] mod nat 10 \<noteq> 0 then length [1..<26] mod nat 10 else nat 10))
      \<and> (length [1..<26] = 25 \<and> (10::int) = 10 \<longrightarrow> map length gs = [10, 10, 5])" ..
  have gs: "chunker [1..<26] 10 = Inr gs" using all by (rule conjunct1)
  have "length [1..<26] = 25 \<and> (10::int) = 10 \<longrightarrow> map length gs = [10, 10, 5]"
    using all by (elim conjE)
  then have m: "map length gs = [10, 10, 5]" using l by (rule mp)
  have "Inr gs = (Inr [[1..<11], [11..<21], [21..<26]] :: py_exception + nat list list)"
    using gs chunker_example by (rule trans [OF sym])
  then have e: "gs = [[1..<11], [11..<21], [21..<26]]" by (simp only: sum.inject)
  have m': "map length [[1..<11], [11..<21], [21..<26]] = [10, 10, 5]"
    using m unfolding e .
  show ?thesis using h chunker_example m' by (intro conjI)
qed

subsection \<open>Listing URLs\<close>

text \<open>
  Claim C4. The root-relative link \<^verbatim>\<open>/for-sale/gauteng/region/town/123/456\<close> is rewritten to
  \<^verbatim>\<open>https://www.property24.com/for-sale/gauteng/region/town/123/456\<close>, and that URL
  matches the listing pattern. The same URL with one of the three path segments before
  the two numbers left out, so that only two remain, does not match. Every character
  involved is ASCII, so this holds whatever the Unicode tables are.
\<close>

theorem listing_url_example:
  "absolute_href (u ''/for-sale/gauteng/region/town/123/456'')
     = u ''https://www.property24.com/for-sale/gauteng/region/town/123/456''
   \<and> re_match U PROPERTY24_REGEX (absolute_href (u ''/for-sale/gauteng/region/town/123/456''))
   \<and> \<not> re_match U PROPERTY24_REGEX (u ''https://www.property24.com/for-sale/gauteng/region/123/456'')
   \<and> \<not> re_match U PROPERTY24_REGEX (u ''https://www.property24.com/for-sale/gauteng/town/123/456'')
   \<and> \<not> re_match U PROPERTY24_REGEX (u ''https://www.property24.com/for-sale/region/town/123/456'')"
proof (intro conjI)
  show a: "absolute_href (u ''/for-sale/gauteng/region/town/123/456'')
     = u ''https://www.property24.com/for-sale/gauteng/region/town/123/456''"
    by (simp add: absolute_href_def u_def)
  have "re_match U PROPERTY24_REGEX
     (u ''https://www.property24.com/for-sale/gauteng/region/town/123/456'')"
    by (simp add: re_match_def PROPERTY24_REGEX_def seqs_def lits_def u_def ascii_lower_def)
  then show "re_match U PROPERTY24_REGEX (absolute_href (u ''/for-sale/gauteng/region/town/123/456''))"
    by (simp only: a)
  show "\<not> re_match U PROPERTY24_REGEX (u ''https://www.property24.com/for-sale/gauteng/region/123/456'')"
    by (simp add: re_match_def PROPERTY24_REGEX_def seqs_def lits_def u_def ascii_lower_def)
  show "\<not> re_match U PROPERTY24_REGEX (u ''https://www.property24.com/for-sale/gauteng/town/123/456'')"
    by (simp add: re_match_def PROPERTY24_REGEX_def seqs_def lits_def u_def ascii_lower_def)
  show "\<not> re_match U PROPERTY24_REGEX (u ''https://www.property24.com/for-sale/region/town/123/456'')"
    by (simp add: re_match_def PROPERTY24_REGEX_def seqs_def lits_def u_def ascii_lower_def)
qed

theorem listing_url_example_witness:
  "re_match ascii_db PROPERTY24_REGEX (absolute_href (u ''/for-sale/gauteng/region/town/123/456''))
   \<and> \<not> re_match ascii_db PROPERTY24_REGEX (u ''https://www.property24.com/for-sale/gauteng/region/123/456'')"
  using listing_url_example [of ascii_db] by blast

subsection \<open>Reserving URLs\<close>

lemma link_step_snd:
  "snd (link_step U a (links, S)) =
     (if link_guard U (absolute_href a) S then insert (absolute_href a) S else S)"
  by (simp add: link_step_def Let_def)

lemma link_step_mono: "S \<subseteq> snd (link_step U a (links, S))"
  by (auto simp: link_step_snd)

lemma reserve_trace_length: "length (reserve_trace U hs S) = length hs"
  by (induction hs arbitrary: S) simp_all

lemma reserve_trace_seen:
  "absolute_href (hs ! j) \<in> S \<Longrightarrow> j < length hs \<Longrightarrow> \<not> reserve_trace U hs S ! j"
proof (induction hs arbitrary: S j)
  case Nil
  then show ?case by simp
next
  case (Cons a hs)
  show ?case
  proof (cases j)
    case 0
    then show ?thesis using Cons.prems by (simp add: link_guard_def)
  next
    case (Suc k)
    have "absolute_href (hs ! k) \<in> snd (link_step U a ([], S))"
      using Cons.prems(1) Suc link_step_mono [of S U a "[]"] by auto
    then have "\<not> reserve_trace U hs (snd (link_step U a ([], S))) ! k"
      using Cons.prems(2) Suc by (intro Cons.IH) simp_all
    then show ?thesis using Suc by simp
  qed
qed

lemma reserve_trace_once:
  "i < j \<Longrightarrow> j < length hs \<Longrightarrow> absolute_href (hs ! i) = absolute_href (hs ! j) \<Longrightarrow>
     reserve_trace U hs S ! i \<Longrightarrow> \<not> reserve_trace U hs S ! j"
proof (induction hs arbitrary: S i j)
  case Nil
  then show ?case by simp
next
  case (Cons a hs)
  obtain k where j: "j = Suc k" using Cons.prems(1) by (cases j) simp_all
  show ?case
  proof (cases i)
    case 0
    then have "link_guard U (absolute_href a) S" using Cons.prems(4) by simp
    then have "absolute_href a \<in> snd (link_step U a ([], S))"
      by (simp add: link_step_snd)
    then have "absolute_href (hs ! k) \<in> snd (link_step U a ([], S))"
      using Cons.prems(3) 0 j by simp
    then have "\<not> reserve_trace U hs (snd (link_step U a ([], S))) ! k"
      using Cons.prems(2) j by (intro reserve_trace_seen) simp_all
    then show ?thesis using j by simp
  next
    case (Suc i')
    have "\<not> reserve_trace U hs (snd (link_step U a ([], S))) ! k"
      using Cons.prems Suc j by (intro Cons.IH [of i' k]) simp_all
    then show ?thesis using j by simp
  qed
qed


lemma link_loop_new:
  "set links \<subseteq> S \<Longrightarrow>
     \<exists>new. fst (link_loop U hrefs (links, S)) = links @ new \<and> distinct new
       \<and> set new \<inter> S = {} \<and> snd (link_loop U hrefs (links, S)) = S \<union> set new"
proof (induction hrefs arbitrary: links S)
  case Nil
  then show ?case by simp
next
  case (Cons a hrefs)
  let ?h = "absolute_href a"
  show ?case
  proof (cases "link_guard U ?h S")
    case False
    then have "link_step U a (links, S) = (links, S)" by (simp add: link_step_def Let_def)
    then show ?thesis using Cons.IH [OF Cons.prems] by simp
  next
    case True
    then have fresh: "?h \<notin> S" by (simp add: link_guard_def)
    then have "?h \<notin> set links" using Cons.prems by auto
    then have step: "link_step U a (links, S) = (links @ [?h], insert ?h S)"
      using True by (simp add: link_step_def Let_def set_add_def)
    have "set (links @ [?h]) \<subseteq> insert ?h S" using Cons.prems by auto
    from Cons.IH [OF this] obtain new where new:
      "fst (link_loop U hrefs (links @ [?h], insert ?h S)) = (links @ [?h]) @ new"
      "distinct new" "set new \<inter> insert ?h S = {}"
      "snd (link_loop U hrefs (links @ [?h], insert ?h S)) = insert ?h S \<union> set new"
      by blast
    have "fst (link_loop U (a # hrefs) (links, S)) = links @ (?h # new)"
      using new(1) step by simp
    moreover have "distinct (?h # new)" using new(2,3) by auto
    moreover have "set (?h # new) \<inter> S = {}" using new(3) fresh by auto
    moreover have "snd (link_loop U (a # hrefs) (links, S)) = S \<union> set (?h # new)"
      using new(4) step by simp
    ultimately show ?thesis by blast
  qed
qed

lemma async_scrape_page_new:
  "distinct (fst (async_scrape_page U page S))
   \<and> set (fst (async_scrape_page U page S)) \<inter> S = {}
   \<and> snd (async_scrape_page U page S) = S \<union> set (fst (async_scrape_page U page S))"
proof (cases page)
  case (Raised e)
  then show ?thesis by (simp add: async_scrape_page_def scrape_page_try_def)
next
  case (Returned hrefs)
  obtain new where "fst (link_loop U hrefs ([], S)) = [] @ new" "distinct new"
      "set new \<inter> S = {}" "snd (link_loop U hrefs ([], S)) = S \<union> set new"
    using link_loop_new [of "[]" S U hrefs] by auto
  then show ?thesis using Returned by (simp add: async_scrape_page_def scrape_page_try_def)
qed

lemma run_page_tasks_new:
  "distinct (concat (fst (run_page_tasks U pages S)))
   \<and> set (concat (fst (run_page_tasks U pages S))) \<inter> S = {}
   \<and> snd (run_page_tasks U pages S) = S \<union> set (concat (fst (run_page_tasks U pages S)))"
proof (induction pages arbitrary: S)
  case Nil
  then show ?case by simp
next
  case (Cons page pages)
  obtain links S' where p: "async_scrape_page U page S = (links, S')" by (cases "async_scrape_page U page S")
  obtain rest S'' where r: "run_page_tasks U pages S' = (rest, S'')" by (cases "run_page_tasks U pages S'")
  have run: "run_page_tasks U (page # pages) S = (links # rest, S'')" using p r by simp
  have a: "distinct links" "set links \<inter> S = {}" "S' = S \<union> set links"
    using async_scrape_page_new [of U page S] p by simp_all
  have b: "distinct (concat rest)" "set (concat rest) \<inter> S' = {}" "S'' = S' \<union> set (concat rest)"
    using Cons.IH [of S'] r by simp_all
  show ?case unfolding run using a b by auto
qed

lemma extend_links_concat: "extend_links results acc = acc @ concat results"
  by (induction results arbitrary: acc) simp_all

lemma mset_concat_perm:
  "mset xss = mset yss \<Longrightarrow> mset (concat xss) = mset (concat yss)"
  by (metis mset_concat sum_mset_sum_list mset_map)

lemma candidate_links_distinct:
  assumes "mset results = mset (fst (run_page_tasks U pages S))"
  shows "distinct (extend_links results [])"
proof -
  have "mset (concat results) = mset (concat (fst (run_page_tasks U pages S)))"
    using assms by (rule mset_concat_perm)
  then have "distinct (concat results) = distinct (concat (fst (run_page_tasks U pages S)))"
    by (rule mset_eq_imp_distinct_iff)
  then show ?thesis using run_page_tasks_new [of U pages S] by (simp add: extend_links_concat)
qed


text \<open>
  Claim C1. Take the reservation attempts of a run in any order of execution \<open>hs\<close>, starting
  from any contents \<open>S\<close> of the shared set. Of two attempts whose anchors have the same
  normalised form at most one finds the URL absent and adds it. Consequently the candidate
  list built from the page results, taken in any order in which \<open>gather\<close> may hand them
  back, holds every listing URL at most once. The test and the insertion are one step here
  because the source has no suspension point between them.
\<close>

theorem url_reserved_once:
  "(\<forall>i j. i < j \<and> j < length hs \<and> absolute_href (hs ! i) = absolute_href (hs ! j)
        \<longrightarrow> \<not> (reserve_trace U hs S ! i \<and> reserve_trace U hs S ! j))
   \<and> (\<forall>results. mset results = mset (fst (run_page_tasks U pages {}))
        \<longrightarrow> distinct (extend_links results []))"
  using reserve_trace_once [of _ _ hs U S] candidate_links_distinct [of _ U pages "{}"]
  by blast

theorem url_reserved_once_witness:
  "absolute_href (u ''/for-sale/a/b/c/1/2'') = absolute_href (u ''https://www.property24.com/for-sale/a/b/c/1/2'')
   \<and> reserve_trace ascii_db
         [u ''/for-sale/a/b/c/1/2'', u ''https://www.property24.com/for-sale/a/b/c/1/2''] {} ! 0
   \<and> \<not> reserve_trace ascii_db
         [u ''/for-sale/a/b/c/1/2'', u ''https://www.property24.com/for-sale/a/b/c/1/2''] {} ! 1
   \<and> fst (run_page_tasks ascii_db
         [Returned [u ''/for-sale/a/b/c/1/2'', u ''/for-sale/a/b/c/3/4''], Raised RequestsError,
          Returned [u ''/for-sale/a/b/c/3/4'', u ''/for-sale/a/b/c/5/6'']] {})
       = [[u ''https://www.property24.com/for-sale/a/b/c/1/2'',
           u ''https://www.property24.com/for-sale/a/b/c/3/4''], [],
          [u ''https://www.property24.com/for-sale/a/b/c/5/6'']]
   \<and> distinct (extend_links
         [[u ''https://www.property24.com/for-sale/a/b/c/5/6''], [],
          [u ''https://www.property24.com/for-sale/a/b/c/1/2'',
           u ''https://www.property24.com/for-sale/a/b/c/3/4'']] [])"
proof -
  let ?hs = "[u ''/for-sale/a/b/c/1/2'', u ''https://www.property24.com/for-sale/a/b/c/1/2'']"
  let ?pages = "[Returned [u ''/for-sale/a/b/c/1/2'', u ''/for-sale/a/b/c/3/4''], Raised RequestsError,
          Returned [u ''/for-sale/a/b/c/3/4'', u ''/for-sale/a/b/c/5/6'']]"
  have m: "re_match ascii_db PROPERTY24_REGEX (u ''https://www.property24.com/for-sale/a/b/c/1/2'')"
    "re_match ascii_db PROPERTY24_REGEX (u ''https://www.property24.com/for-sale/a/b/c/3/4'')"
    "re_match ascii_db PROPERTY24_REGEX (u ''https://www.property24.com/for-sale/a/b/c/5/6'')"
    by (simp_all add: re_match_def PROPERTY24_REGEX_def seqs_def lits_def u_def ascii_lower_def)
  have a: "absolute_href (u ''/for-sale/a/b/c/1/2'') = u ''https://www.property24.com/for-sale/a/b/c/1/2''"
    "absolute_href (u ''/for-sale/a/b/c/3/4'') = u ''https://www.property24.com/for-sale/a/b/c/3/4''"
    "absolute_href (u ''/for-sale/a/b/c/5/6'') = u ''https://www.property24.com/for-sale/a/b/c/5/6''"
    "absolute_href (u ''https://www.property24.com/for-sale/a/b/c/1/2'') = u ''https://www.property24.com/for-sale/a/b/c/1/2''"
    by (simp_all add: absolute_href_def u_def)
  have ne: "u ''https://www.property24.com/for-sale/a/b/c/1/2'' \<noteq> u ''https://www.property24.com/for-sale/a/b/c/3/4''"
    "u ''https://www.property24.com/for-sale/a/b/c/1/2'' \<noteq> u ''https://www.property24.com/for-sale/a/b/c/5/6''"
    "u ''https://www.property24.com/for-sale/a/b/c/3/4'' \<noteq> u ''https://www.property24.com/for-sale/a/b/c/5/6''"
    by (simp_all add: u_def)
  have t0: "reserve_trace ascii_db ?hs {} ! 0"
    by (simp add: a m link_guard_def)
  have same: "absolute_href (?hs ! 0) = absolute_href (?hs ! 1)" by (simp add: a)
  have t1: "\<not> reserve_trace ascii_db ?hs {} ! 1"
    using url_reserved_once [of ?hs ascii_db "{}", THEN conjunct1, rule_format, of 0 1] same t0
    by simp
  have run: "fst (run_page_tasks ascii_db ?pages {})
       = [[u ''https://www.property24.com/for-sale/a/b/c/1/2'',
           u ''https://www.property24.com/for-sale/a/b/c/3/4''], [],
          [u ''https://www.property24.com/for-sale/a/b/c/5/6'']]"
    using ne by (simp add: async_scrape_page_def scrape_page_try_def link_step_def link_guard_def
        set_add_def a m Let_def)
  have d: "distinct (extend_links
         [[u ''https://www.property24.com/for-sale/a/b/c/5/6''], [],
          [u ''https://www.property24.com/for-sale/a/b/c/1/2'',
           u ''https://www.property24.com/for-sale/a/b/c/3/4'']] [])"
  proof (rule url_reserved_once [of "[]" ascii_db "{}" ?pages, THEN conjunct2, rule_format])
    show "mset [[u ''https://www.property24.com/for-sale/a/b/c/5/6''], [],
          [u ''https://www.property24.com/for-sale/a/b/c/1/2'',
           u ''https://www.property24.com/for-sale/a/b/c/3/4'']]
        = mset (fst (run_page_tasks ascii_db ?pages {}))"
      unfolding run by (simp add: add_mset_commute)
  qed
  show ?thesis using a(1,4) t0 t1 run d by simp
qed

subsection \<open>The record built by the extractor\<close>

lemma dict_get_set: "dict_get (dict_set d k v) k' = (if k' = k then Some v else dict_get d k')"
  by (simp add: dict_get_def dict_set_def update_conv')

lemma dict_get_Nil: "dict_get [] k = None"
  by (simp add: dict_get_def)

lemma last_promoted_Cons:
  "last_promoted (t # ts) k =
     (case last_promoted ts k of Some v \<Rightarrow> Some v
      | None \<Rightarrow> if colon \<in> set t \<and> k = feature_key t then Some (feature_val t) else None)"
  by (simp add: last_promoted_def promoted_def map_add_def split: option.splits)

lemma plain_features_Cons:
  "plain_features (t # ts) = (if colon \<in> set t then plain_features ts else t # plain_features ts)"
  by (simp add: plain_features_def)

lemma feature_loop_effect:
  "dict_get (fst (feature_loop items (data, fs))) k =
     (case last_promoted (map (get_text []) items) k of Some v \<Rightarrow> Some (Str v)
      | None \<Rightarrow> dict_get data k)
   \<and> snd (feature_loop items (data, fs)) = fs @ plain_features (map (get_text []) items)"
proof (induction items arbitrary: data fs)
  case Nil
  then show ?case by (simp add: last_promoted_def promoted_def plain_features_def)
next
  case (Cons item items)
  let ?t = "get_text [] item"
  show ?case
  proof (cases "colon \<in> set ?t")
    case True
    then have step: "feature_step item (data, fs) = (dict_set data (feature_key ?t) (Str (feature_val ?t)), fs)"
      by (simp add: feature_step_def Let_def)
    show ?thesis
      using Cons.IH [of "dict_set data (feature_key ?t) (Str (feature_val ?t))" fs] True
      by (simp add: step last_promoted_Cons plain_features_Cons dict_get_set split: option.splits)
  next
    case False
    then have step: "feature_step item (data, fs) = (data, fs @ [?t])"
      by (simp add: feature_step_def Let_def)
    show ?thesis
      using Cons.IH [of data "fs @ [?t]"] False
      by (simp add: step last_promoted_Cons plain_features_Cons split: option.splits)
  qed
qed

lemma keys_distinct:
  "distinct [u ''price'', u ''size'', u ''description'', u ''features'', u ''address'',
     u ''Province'', u ''City'', u ''Town'', u ''ListingNo'', u ''image_url'', u ''url'']"
  by (simp add: u_def)


lemma dict_get_if_set:
  "dict_get (if c then dict_set d k v else d) k' = (if c \<and> k' = k then Some v else dict_get d k')"
  by (simp add: dict_get_set)

lemma extract_listing_data_lookup:
  "dict_get (extract_listing_data U soup) k =
     (if k \<in> set (assigned_after_features U soup) then own_rule U soup k
      else case last_promoted (feature_texts soup) k of Some v \<Rightarrow> Some (Str v)
           | None \<Rightarrow> own_rule U soup k)"
proof -
  define base where "base = dict_set (dict_set (dict_set [] (u ''price'') (price_rule soup))
      (u ''size'') (size_rule soup)) (u ''description'') (description_rule soup)"
  define loop where "loop = feature_loop (find_all_p24_listingFeatures soup) (base, [])"
  define crumbs where "crumbs = crumbs_of U soup"
  have eff: "\<And>k. dict_get (fst loop) k =
      (case last_promoted (feature_texts soup) k of Some v \<Rightarrow> Some (Str v) | None \<Rightarrow> dict_get base k)"
    and fs: "snd loop = plain_features (feature_texts soup)"
    using feature_loop_effect [of "find_all_p24_listingFeatures soup" base "[]"]
    by (simp_all add: loop_def feature_texts_def)
  have b: "\<And>k. dict_get base k =
      (if k = u ''description'' then Some (description_rule soup)
       else if k = u ''size'' then Some (size_rule soup)
       else if k = u ''price'' then Some (price_rule soup) else None)"
    by (simp add: base_def dict_get_set dict_get_Nil)
  have late: "\<And>k. dict_get (extract_listing_data U soup) k =
      (if k = u ''image_url'' then Some (image_url_rule soup)
       else if k = u ''ListingNo'' then Some (listing_no_rule soup)
       else if length crumbs \<ge> 3 \<and> k = u ''Town'' then Some (Str (crumbs ! 2))
       else if length crumbs \<ge> 2 \<and> k = u ''City'' then Some (Str (crumbs ! 1))
       else if length crumbs \<ge> 1 \<and> k = u ''Province'' then Some (Str (crumbs ! 0))
       else if k = u ''address'' then Some (address_rule soup)
       else if k = u ''features'' then Some (StrList (plain_features (feature_texts soup)))
       else dict_get (fst loop) k)"
    unfolding extract_listing_data_def Let_def split_def
    by (simp only: dict_get_set dict_get_if_set fs [unfolded loop_def base_def]
        loop_def base_def crumbs_def if_cancel)
  consider "k = u ''price''" | "k = u ''size''" | "k = u ''description''" | "k = u ''features''"
    | "k = u ''address''" | "k = u ''Province''" | "k = u ''City''" | "k = u ''Town''"
    | "k = u ''ListingNo''" | "k = u ''image_url''"
    | "k \<notin> set [u ''price'', u ''size'', u ''description'', u ''features'', u ''address'',
     u ''Province'', u ''City'', u ''Town'', u ''ListingNo'', u ''image_url'']"
    by auto
  then show ?thesis
  proof cases
    case 1
    show ?thesis unfolding 1
      by (simp add: late eff b own_rule_def assigned_after_features_def crumbs_def u_def
          split: option.splits)
  next
    case 2
    show ?thesis unfolding 2
      by (simp add: late eff b own_rule_def assigned_after_features_def crumbs_def u_def
          split: option.splits)
  next
    case 3
    show ?thesis unfolding 3
      by (simp add: late eff b own_rule_def assigned_after_features_def crumbs_def u_def
          split: option.splits)
  next
    case 4
    show ?thesis unfolding 4
      by (simp add: late eff b own_rule_def assigned_after_features_def crumbs_def u_def
          split: option.splits)
  next
    case 5
    show ?thesis unfolding 5
      by (simp add: late eff b own_rule_def assigned_after_features_def crumbs_def u_def
          split: option.splits)
  next
    case 6
    show ?thesis unfolding 6
      by (simp add: late eff b own_rule_def assigned_after_features_def crumbs_def u_def
          split: option.splits)
  next
    case 7
    show ?thesis unfolding 7
      by (simp add: late eff b own_rule_def assigned_after_features_def crumbs_def u_def
          split: option.splits)
  next
    case 8
    show ?thesis unfolding 8
      by (simp add: late eff b own_rule_def assigned_after_features_def crumbs_def u_def
          split: option.splits)
  next
    case 9
    show ?thesis unfolding 9
      by (simp add: late eff b own_rule_def assigned_after_features_def crumbs_def u_def
          split: option.splits)
  next
    case 10
    show ?thesis unfolding 10
      by (simp add: late eff b own_rule_def assigned_after_features_def crumbs_def u_def
          split: option.splits)
  next
    case 11
    then show ?thesis
      by (simp add: late eff b own_rule_def assigned_after_features_def crumbs_def
          split: option.splits)
  qed
qed

lemma last_promoted_None:
  "last_promoted ts k = None \<longleftrightarrow> (\<forall>t \<in> set ts. \<not> (colon \<in> set t \<and> feature_key t = k))"
proof (induction ts)
  case Nil
  then show ?case by (simp add: last_promoted_def promoted_def)
next
  case (Cons t ts)
  then show ?case by (auto simp: last_promoted_Cons split: option.splits)
qed

lemma last_promoted_last:
  assumes "i < length ts" "colon \<in> set (ts ! i)" "feature_key (ts ! i) = k"
    and "\<forall>j. i < j \<and> j < length ts \<longrightarrow> \<not> (colon \<in> set (ts ! j) \<and> feature_key (ts ! j) = k)"
  shows "last_promoted ts k = Some (feature_val (ts ! i))"
  using assms
proof (induction ts arbitrary: i)
  case Nil
  then show ?case by simp
next
  case (Cons t ts)
  show ?case
  proof (cases i)
    case 0
    have "\<forall>t' \<in> set ts. \<not> (colon \<in> set t' \<and> feature_key t' = k)"
    proof
      fix t' assume "t' \<in> set ts"
      then obtain j where j: "j < length ts" "ts ! j = t'" by (auto simp: in_set_conv_nth)
      then show "\<not> (colon \<in> set t' \<and> feature_key t' = k)"
        using Cons.prems(4) [rule_format, of "Suc j"] 0 by simp
    qed
    then have "last_promoted ts k = None" by (simp add: last_promoted_None)
    then show ?thesis using Cons.prems(2,3) 0 by (simp add: last_promoted_Cons)
  next
    case (Suc i')
    have "last_promoted ts k = Some (feature_val (ts ! i'))"
    proof (rule Cons.IH)
      show "i' < length ts" using Cons.prems(1) Suc by simp
      show "colon \<in> set (ts ! i')" using Cons.prems(2) Suc by simp
      show "feature_key (ts ! i') = k" using Cons.prems(3) Suc by simp
      show "\<forall>j. i' < j \<and> j < length ts \<longrightarrow> \<not> (colon \<in> set (ts ! j) \<and> feature_key (ts ! j) = k)"
      proof (intro allI impI)
        fix j assume "i' < j \<and> j < length ts"
        then show "\<not> (colon \<in> set (ts ! j) \<and> feature_key (ts ! j) = k)"
          using Cons.prems(4) [rule_format, of "Suc j"] Suc by simp
      qed
    qed
    then show ?thesis using Suc by (simp add: last_promoted_Cons)
  qed
qed

lemma early_fields_not_late:
  "u ''price'' \<notin> set (assigned_after_features U soup)"
  "u ''size'' \<notin> set (assigned_after_features U soup)"
  "u ''description'' \<notin> set (assigned_after_features U soup)"
  by (simp_all add: assigned_after_features_def u_def)

text \<open>
  Claim C9. When a feature element has the key \<open>price\<close>, \<open>size\<close> or \<open>description\<close> (and no
  later feature element has the same key), the record holds that feature's text right of
  the colon under the key, in place of the value extracted before the loop. A field whose
  name is the key of no feature element holds the value of its own rule.
\<close>

theorem promoted_key_overwrites:
  "(k \<in> set [u ''price'', u ''size'', u ''description''] \<and> i < length (feature_texts soup)
      \<and> colon \<in> set (feature_texts soup ! i) \<and> feature_key (feature_texts soup ! i) = k
      \<and> (\<forall>j. i < j \<and> j < length (feature_texts soup)
             \<longrightarrow> \<not> (colon \<in> set (feature_texts soup ! j) \<and> feature_key (feature_texts soup ! j) = k))
      \<longrightarrow> dict_get (extract_listing_data U soup) k = Some (Str (feature_val (feature_texts soup ! i))))
   \<and> ((\<forall>t \<in> set (feature_texts soup). \<not> (colon \<in> set t \<and> feature_key t = k))
      \<longrightarrow> dict_get (extract_listing_data U soup) k = own_rule U soup k)"
proof (intro conjI impI)
  assume a: "k \<in> set [u ''price'', u ''size'', u ''description''] \<and> i < length (feature_texts soup)
      \<and> colon \<in> set (feature_texts soup ! i) \<and> feature_key (feature_texts soup ! i) = k
      \<and> (\<forall>j. i < j \<and> j < length (feature_texts soup)
             \<longrightarrow> \<not> (colon \<in> set (feature_texts soup ! j) \<and> feature_key (feature_texts soup ! j) = k))"
  then have "last_promoted (feature_texts soup) k = Some (feature_val (feature_texts soup ! i))"
    by (intro last_promoted_last) simp_all
  moreover have "k \<notin> set (assigned_after_features U soup)"
    using a early_fields_not_late [of U soup] by auto
  ultimately show "dict_get (extract_listing_data U soup) k = Some (Str (feature_val (feature_texts soup ! i)))"
    by (simp add: extract_listing_data_lookup)
next
  assume "\<forall>t \<in> set (feature_texts soup). \<not> (colon \<in> set t \<and> feature_key t = k)"
  then have "last_promoted (feature_texts soup) k = None" by (simp add: last_promoted_None)
  then show "dict_get (extract_listing_data U soup) k = own_rule U soup k"
    by (simp add: extract_listing_data_lookup)
qed


lemma get_text_text_element:
  "get_text sep (text_element t) = strip t"
  by (simp add: get_text_def text_element_def)

theorem promoted_key_overwrites_witness:
  "price_rule (empty_soup\<lparr>find_p24_price := Some (text_element (u ''R 1 000'')),
       find_all_p24_listingFeatures := [text_element (u ''price: 5''), text_element (u ''Pool'')]\<rparr>)
     = Str (u ''R 1 000'')
   \<and> dict_get (extract_listing_data ascii_db
       (empty_soup\<lparr>find_p24_price := Some (text_element (u ''R 1 000'')),
       find_all_p24_listingFeatures := [text_element (u ''price: 5''), text_element (u ''Pool'')]\<rparr>))
       (u ''price'') = Some (Str (u ''5''))
   \<and> dict_get (extract_listing_data ascii_db
       (empty_soup\<lparr>find_p24_price := Some (text_element (u ''R 1 000'')),
       find_all_p24_listingFeatures := [text_element (u ''price: 5''), text_element (u ''Pool'')]\<rparr>))
       (u ''size'') = Some (Str (u ''None''))"
proof -
  define S where "S = empty_soup\<lparr>find_p24_price := Some (text_element (u ''R 1 000'')),
       find_all_p24_listingFeatures := [text_element (u ''price: 5''), text_element (u ''Pool'')]\<rparr>"
  have ft: "feature_texts S = [u ''price: 5'', u ''Pool'']"
    by (simp add: S_def feature_texts_def empty_soup_def get_text_text_element
        strip_def lstrip_def rstrip_def isspace_def u_def)
  have kv: "colon \<in> set (u ''price: 5'')" "feature_key (u ''price: 5'') = u ''price''"
    "feature_val (u ''price: 5'') = u ''5''" "colon \<notin> set (u ''Pool'')"
    by (simp_all add: feature_key_def feature_val_def colon_def
        strip_def lstrip_def rstrip_def isspace_def u_def)
  have pr: "price_rule S = Str (u ''R 1 000'')"
    by (simp add: S_def price_rule_def empty_soup_def get_text_text_element
        strip_def lstrip_def rstrip_def isspace_def u_def)
  have sz: "own_rule ascii_db S (u ''size'') = Some (Str (u ''None''))"
    by (simp add: own_rule_def size_rule_def S_def empty_soup_def u_def)
  have ne: "feature_key (u ''price: 5'') \<noteq> u ''size''"
    unfolding kv(2) by (simp add: u_def)
  have a: "dict_get (extract_listing_data ascii_db S) (u ''price'') = Some (Str (u ''5''))"
  proof -
    have later: "\<forall>j. 0 < j \<and> j < length (feature_texts S)
        \<longrightarrow> \<not> (colon \<in> set (feature_texts S ! j) \<and> feature_key (feature_texts S ! j) = u ''price'')"
      using kv(4) by (auto simp: ft less_Suc_eq)
    show ?thesis
      using promoted_key_overwrites [of "u ''price''" 0 S ascii_db, THEN conjunct1] later kv(1-3)
      by (simp add: ft)
  qed
  have b: "dict_get (extract_listing_data ascii_db S) (u ''size'') = Some (Str (u ''None''))"
    using promoted_key_overwrites [of "u ''size''" 0 S ascii_db, THEN conjunct2] ft kv ne sz
    by simp
  show ?thesis using pr a b unfolding S_def by blast
qed


lemma trimmed_iff:
  "strip s = s \<longleftrightarrow> s = [] \<or> (\<not> isspace (hd s) \<and> \<not> isspace (last s))"
proof (cases "s = []")
  case True
  then show ?thesis by (simp add: strip_def lstrip_def rstrip_def)
next
  case False
  show ?thesis
  proof
    assume t: "strip s = s"
    have "dropWhile isspace s \<noteq> []" using trimmed_lstrip [OF t] False by (simp add: lstrip_def)
    then have "\<not> isspace (hd (dropWhile isspace s))" by (rule hd_dropWhile)
    then have h: "\<not> isspace (hd s)" using trimmed_lstrip [OF t] by (simp add: lstrip_def)
    have r: "dropWhile isspace (rev s) = rev s"
      using trimmed_rstrip [OF t] unfolding rstrip_def by (metis rev_rev_ident)
    have "dropWhile isspace (rev s) \<noteq> []" using r False by simp
    then have "\<not> isspace (hd (dropWhile isspace (rev s)))" by (rule hd_dropWhile)
    then have "\<not> isspace (last s)" using r False by (simp add: hd_rev)
    then show "s = [] \<or> (\<not> isspace (hd s) \<and> \<not> isspace (last s))" using h by simp
  next
    assume "s = [] \<or> (\<not> isspace (hd s) \<and> \<not> isspace (last s))"
    then have h: "\<not> isspace (hd s)" and l: "\<not> isspace (last s)" using False by simp_all
    have "lstrip s = s" using h False unfolding lstrip_def by (cases s) simp_all
    moreover have "rstrip s = s"
    proof -
      have "hd (rev s) = last s" using False by (simp add: hd_rev)
      then have "\<not> isspace (hd (rev s))" using l by simp
      then have "dropWhile isspace (rev s) = rev s" using False by (cases "rev s") simp_all
      then show ?thesis by (simp add: rstrip_def)
    qed
    ultimately show "strip s = s" by (simp add: strip_def)
  qed
qed

lemma join_empty_sep: "join [] xs = concat xs"
  by (induction "[]::pystr" xs rule: join.induct) simp_all

lemma concat_trimmed:
  assumes "\<forall>x \<in> set xs. strip x = x \<and> x \<noteq> []"
  shows "strip (concat xs) = concat xs"
proof (cases "xs = []")
  case True
  then show ?thesis by (simp add: trimmed_iff)
next
  case False
  then have ne: "concat xs \<noteq> []" using assms by (cases xs) auto
  have "hd (concat xs) = hd (hd xs)" using False assms by (cases xs) auto
  moreover have "\<not> isspace (hd (hd xs))"
    using False assms trimmed_iff [of "hd xs"] by (cases xs) auto
  moreover have "last (concat xs) = last (last xs)"
    using False assms by (cases xs rule: rev_cases) auto
  moreover have "\<not> isspace (last (last xs))"
    using False assms trimmed_iff [of "last xs"] by (cases xs rule: rev_cases) auto
  ultimately show ?thesis by (simp add: trimmed_iff)
qed

lemma get_text_trimmed: "strip (get_text [] e) = get_text [] e"
  unfolding get_text_def join_empty_sep
  by (rule concat_trimmed) (auto simp: strip_idem)

lemma split_first_colon:
  assumes "colon \<notin> set l"
  shows "feature_key (l @ colon # r) = strip l" "feature_val (l @ colon # r) = strip r"
proof -
  have "takeWhile (\<lambda>c. c \<noteq> colon) (l @ colon # r) = l"
    using assms by (subst takeWhile_append2) auto
  then show "feature_key (l @ colon # r) = strip l" by (simp add: feature_key_def)
  have "dropWhile (\<lambda>c. c \<noteq> colon) (l @ colon # r) = colon # r"
    using assms by (subst dropWhile_append2) auto
  then show "feature_val (l @ colon # r) = strip r" by (simp add: feature_val_def)
qed


lemma feature_texts_trimmed: "t \<in> set (feature_texts soup) \<Longrightarrow> strip t = t"
  by (auto simp: feature_texts_def get_text_trimmed)

lemma features_field:
  "dict_get (extract_listing_data U soup) (u ''features'')
     = Some (StrList (filter (\<lambda>t. colon \<notin> set t) (feature_texts soup)))"
proof -
  have "u ''features'' \<in> set (assigned_after_features U soup)"
    by (simp add: assigned_after_features_def)
  moreover have "own_rule U soup (u ''features'')
      = Some (StrList (plain_features (feature_texts soup)))"
    by (simp add: own_rule_def u_def)
  ultimately show ?thesis
    by (simp only: extract_listing_data_lookup if_True plain_features_def)
qed

lemma assigned_after_present:
  "k \<in> set (assigned_after_features U soup) \<Longrightarrow> own_rule U soup k \<noteq> None"
proof -
  assume "k \<in> set (assigned_after_features U soup)"
  then consider "k = u ''features''" | "k = u ''address''"
    | "k = u ''Province''" "length (crumbs_of U soup) \<ge> 1"
    | "k = u ''City''" "length (crumbs_of U soup) \<ge> 2"
    | "k = u ''Town''" "length (crumbs_of U soup) \<ge> 3"
    | "k = u ''ListingNo''" | "k = u ''image_url''"
    unfolding assigned_after_features_def by (auto split: if_splits)
  then show "own_rule U soup k \<noteq> None"
  proof cases
    case 1 show ?thesis unfolding 1 by (simp add: own_rule_def u_def)
  next
    case 2 show ?thesis unfolding 2 by (simp add: own_rule_def u_def)
  next
    case 3 show ?thesis unfolding 3(1) using 3(2) by (simp add: own_rule_def u_def)
  next
    case 4 show ?thesis unfolding 4(1) using 4(2) by (simp add: own_rule_def u_def)
  next
    case 5 show ?thesis unfolding 5(1) using 5(2) by (simp add: own_rule_def u_def)
  next
    case 6 show ?thesis unfolding 6 by (simp add: own_rule_def u_def)
  next
    case 7 show ?thesis unfolding 7 by (simp add: own_rule_def u_def)
  qed
qed

lemma promoted_key_present:
  assumes "i < length (feature_texts soup)" "colon \<in> set (feature_texts soup ! i)"
  shows "dict_get (extract_listing_data U soup) (feature_key (feature_texts soup ! i)) \<noteq> None"
proof (cases "feature_key (feature_texts soup ! i) \<in> set (assigned_after_features U soup)")
  case True
  then show ?thesis by (simp add: extract_listing_data_lookup assigned_after_present)
next
  case False
  have "feature_texts soup ! i \<in> set (feature_texts soup)"
    using assms(1) by (rule nth_mem)
  then have "\<not> (\<forall>t \<in> set (feature_texts soup).
      \<not> (colon \<in> set t \<and> feature_key t = feature_key (feature_texts soup ! i)))"
    using assms(2) by blast
  then have "last_promoted (feature_texts soup) (feature_key (feature_texts soup ! i)) \<noteq> None"
    using last_promoted_None [of "feature_texts soup" "feature_key (feature_texts soup ! i)"]
    by blast
  then show ?thesis using False by (auto simp: extract_listing_data_lookup)
qed

lemma promoted_key_value:
  assumes "i < length (feature_texts soup)" "colon \<in> set (feature_texts soup ! i)"
    and "\<forall>j. i < j \<and> j < length (feature_texts soup) \<longrightarrow>
           \<not> (colon \<in> set (feature_texts soup ! j)
              \<and> feature_key (feature_texts soup ! j) = feature_key (feature_texts soup ! i))"
    and "feature_key (feature_texts soup ! i) \<notin> set (assigned_after_features U soup)"
  shows "dict_get (extract_listing_data U soup) (feature_key (feature_texts soup ! i))
           = Some (Str (feature_val (feature_texts soup ! i)))"
proof -
  have "last_promoted (feature_texts soup) (feature_key (feature_texts soup ! i))
      = Some (feature_val (feature_texts soup ! i))"
    using assms(1,2) refl assms(3) by (rule last_promoted_last)
  then show ?thesis using assms(4) by (simp add: extract_listing_data_lookup)
qed

text \<open>
  Claim C8, as amended. One iteration of the loop stores the trimmed text left of the first
  colon as a key with the trimmed text right of it as value and leaves the feature list
  alone, or, without a colon, appends the text, which is trimmed. In the returned record
  the \<open>features\<close> field is the list of the colon-free texts in document order, and the key of
  every feature element with a colon is present. The key holds that element's value unless
  a later feature element has the same key or the key is one of the names assigned after
  the loop (\<open>features\<close>, \<open>address\<close>, the location names that receive a breadcrumb,
  \<open>ListingNo\<close>, \<open>image_url\<close>).
\<close>

theorem feature_promotion:
  "feature_step item (data, features) =
      (if colon \<in> set (get_text [] item)
       then (dict_set data (feature_key (get_text [] item)) (Str (feature_val (get_text [] item))),
             features)
       else (data, features @ [get_text [] item]))
   \<and> (colon \<notin> set l \<longrightarrow> feature_key (l @ colon # r) = strip l \<and> feature_val (l @ colon # r) = strip r)
   \<and> (\<forall>t \<in> set (feature_texts soup). strip t = t)
   \<and> dict_get (extract_listing_data U soup) (u ''features'')
        = Some (StrList (filter (\<lambda>t. colon \<notin> set t) (feature_texts soup)))
   \<and> (\<forall>i. i < length (feature_texts soup) \<and> colon \<in> set (feature_texts soup ! i) \<longrightarrow>
          dict_get (extract_listing_data U soup) (feature_key (feature_texts soup ! i)) \<noteq> None
        \<and> ((\<forall>j. i < j \<and> j < length (feature_texts soup) \<longrightarrow>
               \<not> (colon \<in> set (feature_texts soup ! j)
                  \<and> feature_key (feature_texts soup ! j) = feature_key (feature_texts soup ! i)))
             \<and> feature_key (feature_texts soup ! i) \<notin> set (assigned_after_features U soup)
           \<longrightarrow> dict_get (extract_listing_data U soup) (feature_key (feature_texts soup ! i))
                 = Some (Str (feature_val (feature_texts soup ! i)))))"
proof (intro conjI allI impI ballI)
  show "feature_step item (data, features) =
      (if colon \<in> set (get_text [] item)
       then (dict_set data (feature_key (get_text [] item)) (Str (feature_val (get_text [] item))),
             features)
       else (data, features @ [get_text [] item]))"
    by (simp add: feature_step_def Let_def)
next
  assume "colon \<notin> set l"
  then show "feature_key (l @ colon # r) = strip l" "feature_val (l @ colon # r) = strip r"
    by (rule split_first_colon)+
next
  fix t assume "t \<in> set (feature_texts soup)"
  then show "strip t = t" by (rule feature_texts_trimmed)
next
  show "dict_get (extract_listing_data U soup) (u ''features'')
        = Some (StrList (filter (\<lambda>t. colon \<notin> set t) (feature_texts soup)))"
    by (rule features_field)
next
  fix i assume "i < length (feature_texts soup) \<and> colon \<in> set (feature_texts soup ! i)"
  then show "dict_get (extract_listing_data U soup) (feature_key (feature_texts soup ! i)) \<noteq> None"
    by (intro promoted_key_present) simp_all
next
  fix i
  assume a: "i < length (feature_texts soup) \<and> colon \<in> set (feature_texts soup ! i)"
    and b: "(\<forall>j. i < j \<and> j < length (feature_texts soup) \<longrightarrow>
               \<not> (colon \<in> set (feature_texts soup ! j)
                  \<and> feature_key (feature_texts soup ! j) = feature_key (feature_texts soup ! i)))
             \<and> feature_key (feature_texts soup ! i) \<notin> set (assigned_after_features U soup)"
  show "dict_get (extract_listing_data U soup) (feature_key (feature_texts soup ! i))
                 = Some (Str (feature_val (feature_texts soup ! i)))"
    using a b by (intro promoted_key_value) blast+
qed

lemma unaffected_by_price:
  assumes "k \<noteq> u ''price''"
  shows "dict_get (extract_listing_data U (soup\<lparr>find_p24_price := p\<rparr>)) k
           = dict_get (extract_listing_data U soup) k"
proof -
  have "feature_texts (soup\<lparr>find_p24_price := p\<rparr>) = feature_texts soup"
    by (simp add: feature_texts_def)
  moreover have c: "crumbs_of U (soup\<lparr>find_p24_price := p\<rparr>) = crumbs_of U soup"
    by (simp add: crumbs_of_def)
  moreover have "assigned_after_features U (soup\<lparr>find_p24_price := p\<rparr>) = assigned_after_features U soup"
    by (simp add: assigned_after_features_def c)
  moreover have "own_rule U (soup\<lparr>find_p24_price := p\<rparr>) k = own_rule U soup k"
  proof -
    have r: "size_rule (soup\<lparr>find_p24_price := p\<rparr>) = size_rule soup"
      "description_rule (soup\<lparr>find_p24_price := p\<rparr>) = description_rule soup"
      "address_rule (soup\<lparr>find_p24_price := p\<rparr>) = address_rule soup"
      "listing_no_rule (soup\<lparr>find_p24_price := p\<rparr>) = listing_no_rule soup"
      "image_url_rule (soup\<lparr>find_p24_price := p\<rparr>) = image_url_rule soup"
      "feature_texts (soup\<lparr>find_p24_price := p\<rparr>) = feature_texts soup"
      by (simp_all add: size_rule_def description_rule_def address_rule_def listing_no_rule_def
          image_url_rule_def feature_texts_def split: option.splits)
    show ?thesis using assms unfolding own_rule_def r c by simp
  qed
  ultimately show ?thesis by (simp add: extract_listing_data_lookup split: option.splits)
qed

text \<open>
  Claim C7, as amended. On a page without a price element, and with no feature element
  whose key is \<open>price\<close>, the price field is the default \<open>None\<close>. Whatever the price
  element is, every other field is the same as without it; the fields assigned after the
  feature loop hold the value of their own rule, and so does every field whose name is the
  key of no feature element.
\<close>

theorem missing_price_default:
  "(find_p24_price soup = None
      \<and> (\<forall>t \<in> set (feature_texts soup). \<not> (colon \<in> set t \<and> feature_key t = u ''price''))
      \<longrightarrow> dict_get (extract_listing_data U soup) (u ''price'') = Some (Str (u ''None'')))
   \<and> (\<forall>k. k \<noteq> u ''price'' \<longrightarrow>
          dict_get (extract_listing_data U (soup\<lparr>find_p24_price := p\<rparr>)) k
            = dict_get (extract_listing_data U soup) k)
   \<and> (\<forall>k \<in> set (assigned_after_features U soup).
          dict_get (extract_listing_data U soup) k = own_rule U soup k)
   \<and> (\<forall>k. (\<forall>t \<in> set (feature_texts soup). \<not> (colon \<in> set t \<and> feature_key t = k))
          \<longrightarrow> dict_get (extract_listing_data U soup) k = own_rule U soup k)"
proof (intro conjI allI impI ballI)
  assume a: "find_p24_price soup = None
      \<and> (\<forall>t \<in> set (feature_texts soup). \<not> (colon \<in> set t \<and> feature_key t = u ''price''))"
  then have "last_promoted (feature_texts soup) (u ''price'') = None"
    by (simp add: last_promoted_None)
  then show "dict_get (extract_listing_data U soup) (u ''price'') = Some (Str (u ''None''))"
    using a by (simp add: extract_listing_data_lookup own_rule_def price_rule_def)
next
  fix k :: pystr assume "k \<noteq> u ''price''"
  then show "dict_get (extract_listing_data U (soup\<lparr>find_p24_price := p\<rparr>)) k
            = dict_get (extract_listing_data U soup) k"
    by (rule unaffected_by_price)
next
  fix k assume "k \<in> set (assigned_after_features U soup)"
  then show "dict_get (extract_listing_data U soup) k = own_rule U soup k"
    by (simp add: extract_listing_data_lookup)
next
  fix k assume "\<forall>t \<in> set (feature_texts soup). \<not> (colon \<in> set t \<and> feature_key t = k)"
  then have "last_promoted (feature_texts soup) k = None" by (simp add: last_promoted_None)
  then show "dict_get (extract_listing_data U soup) k = own_rule U soup k"
    by (simp add: extract_listing_data_lookup)
qed


lemma strip_evals:
  "strip (u ''price:100'') = u ''price:100''" "strip (u ''Pool'') = u ''Pool''"
  "strip (u ''address:12 Main'') = u ''address:12 Main''"
  "strip (u ''Bedrooms: 3'') = u ''Bedrooms: 3''"
  by (simp_all add: strip_def lstrip_def rstrip_def isspace_def u_def)

lemma feature_evals:
  "colon \<in> set (u ''price:100'')" "feature_key (u ''price:100'') = u ''price''"
  "feature_val (u ''price:100'') = u ''100''"
  "colon \<in> set (u ''address:12 Main'')" "feature_key (u ''address:12 Main'') = u ''address''"
  "feature_val (u ''address:12 Main'') = u ''12 Main''"
  "colon \<in> set (u ''Bedrooms: 3'')" "feature_key (u ''Bedrooms: 3'') = u ''Bedrooms''"
  "feature_val (u ''Bedrooms: 3'') = u ''3''"
  "colon \<notin> set (u ''Pool'')"
  by (simp_all add: feature_key_def feature_val_def colon_def
      strip_def lstrip_def rstrip_def isspace_def u_def)

theorem missing_price_default_witness:
  "find_p24_price (empty_soup\<lparr>find_all_p24_listingFeatures := [text_element (u ''Pool'')]\<rparr>) = None
   \<and> dict_get (extract_listing_data ascii_db
         (empty_soup\<lparr>find_all_p24_listingFeatures := [text_element (u ''Pool'')]\<rparr>)) (u ''price'')
       = Some (Str (u ''None''))"
proof -
  define S where "S = empty_soup\<lparr>find_all_p24_listingFeatures := [text_element (u ''Pool'')]\<rparr>"
  have p: "find_p24_price S = None" by (simp add: S_def empty_soup_def)
  have ft: "feature_texts S = [u ''Pool'']"
    by (simp add: S_def feature_texts_def empty_soup_def get_text_text_element strip_evals)
  have np: "\<forall>t \<in> set (feature_texts S). \<not> (colon \<in> set t \<and> feature_key t = u ''price'')"
    by (simp add: ft feature_evals)
  have "dict_get (extract_listing_data ascii_db S) (u ''price'') = Some (Str (u ''None''))"
    using missing_price_default [of S ascii_db, THEN conjunct1] p np by blast
  then show ?thesis using p unfolding S_def by blast
qed

text \<open>
  The claim as first stated fails when a feature element has the key \<open>price\<close>: without a
  price element the record then holds that feature's value, not the default.
\<close>

theorem missing_price_default_counterexample:
  "find_p24_price (empty_soup\<lparr>find_all_p24_listingFeatures := [text_element (u ''price:100'')]\<rparr>) = None
   \<and> dict_get (extract_listing_data ascii_db
         (empty_soup\<lparr>find_all_p24_listingFeatures := [text_element (u ''price:100'')]\<rparr>)) (u ''price'')
       = Some (Str (u ''100''))
   \<and> dict_get (extract_listing_data ascii_db
         (empty_soup\<lparr>find_all_p24_listingFeatures := [text_element (u ''price:100'')]\<rparr>)) (u ''price'')
       \<noteq> Some (Str (u ''None''))"
proof -
  define S where "S = empty_soup\<lparr>find_all_p24_listingFeatures := [text_element (u ''price:100'')]\<rparr>"
  have p: "find_p24_price S = None" by (simp add: S_def empty_soup_def)
  have ft: "feature_texts S = [u ''price:100'']"
    by (simp add: S_def feature_texts_def empty_soup_def get_text_text_element strip_evals)
  have lp: "last_promoted (feature_texts S) (u ''price'') = Some (u ''100'')"
    by (simp add: ft last_promoted_def promoted_def feature_evals)
  have v: "dict_get (extract_listing_data ascii_db S) (u ''price'') = Some (Str (u ''100''))"
    by (simp add: extract_listing_data_lookup early_fields_not_late lp)
  have "u ''100'' \<noteq> u ''None''" by (simp add: u_def)
  then show ?thesis using p v unfolding S_def by simp
qed

theorem feature_promotion_witness:
  "dict_get (extract_listing_data ascii_db
       (empty_soup\<lparr>find_all_p24_listingFeatures :=
          [text_element (u ''Bedrooms: 3''), text_element (u ''Pool'')]\<rparr>)) (u ''Bedrooms'')
     = Some (Str (u ''3''))
   \<and> dict_get (extract_listing_data ascii_db
       (empty_soup\<lparr>find_all_p24_listingFeatures :=
          [text_element (u ''Bedrooms: 3''), text_element (u ''Pool'')]\<rparr>)) (u ''features'')
     = Some (StrList [u ''Pool''])"
proof -
  define S where "S = empty_soup\<lparr>find_all_p24_listingFeatures :=
          [text_element (u ''Bedrooms: 3''), text_element (u ''Pool'')]\<rparr>"
  have ft: "feature_texts S = [u ''Bedrooms: 3'', u ''Pool'']"
    by (simp add: S_def feature_texts_def empty_soup_def get_text_text_element strip_evals)
  have cr: "crumbs_of ascii_db S = []"
    by (simp add: S_def crumbs_of_def empty_soup_def)
  have nl: "u ''Bedrooms'' \<notin> set (assigned_after_features ascii_db S)"
    by (simp add: assigned_after_features_def cr u_def)
  have i: "0 < length (feature_texts S) \<and> colon \<in> set (feature_texts S ! 0)"
    by (simp add: ft feature_evals)
  have later: "\<forall>j. 0 < j \<and> j < length (feature_texts S) \<longrightarrow>
      \<not> (colon \<in> set (feature_texts S ! j)
         \<and> feature_key (feature_texts S ! j) = feature_key (feature_texts S ! 0))"
    using feature_evals(10) by (auto simp: ft less_Suc_eq)
  have k: "feature_key (feature_texts S ! 0) = u ''Bedrooms''"
    "feature_val (feature_texts S ! 0) = u ''3''"
    by (simp_all add: ft feature_evals)
  note fp = feature_promotion [of "text_element []" "[]" "[]" "[]" "[]" S ascii_db]
  have a: "dict_get (extract_listing_data ascii_db S) (u ''Bedrooms'') = Some (Str (u ''3''))"
    using fp [THEN conjunct2, THEN conjunct2, THEN conjunct2, THEN conjunct2, rule_format, of 0,
        OF i, THEN conjunct2] later nl
    by (simp add: k)
  have b: "dict_get (extract_listing_data ascii_db S) (u ''features'') = Some (StrList [u ''Pool''])"
    using fp [THEN conjunct2, THEN conjunct2, THEN conjunct2, THEN conjunct1]
    by (simp add: ft feature_evals)
  show ?thesis using a b unfolding S_def by blast
qed

text \<open>
  The claim as first stated fails for a key that is assigned after the loop: the feature
  \<open>address:12 Main\<close> on a page without an address element leaves the default under
  \<open>address\<close>.
\<close>

theorem feature_promotion_counterexample:
  "feature_texts (empty_soup\<lparr>find_all_p24_listingFeatures := [text_element (u ''address:12 Main'')]\<rparr>)
     = [u ''address:12 Main'']
   \<and> colon \<in> set (u ''address:12 Main'')
   \<and> feature_key (u ''address:12 Main'') = u ''address''
   \<and> feature_val (u ''address:12 Main'') = u ''12 Main''
   \<and> dict_get (extract_listing_data ascii_db
         (empty_soup\<lparr>find_all_p24_listingFeatures := [text_element (u ''address:12 Main'')]\<rparr>))
         (u ''address'') = Some (Str (u ''None found''))
   \<and> dict_get (extract_listing_data ascii_db
         (empty_soup\<lparr>find_all_p24_listingFeatures := [text_element (u ''address:12 Main'')]\<rparr>))
         (u ''address'') \<noteq> Some (Str (u ''12 Main''))"
proof -
  define S where "S = empty_soup\<lparr>find_all_p24_listingFeatures := [text_element (u ''address:12 Main'')]\<rparr>"
  have ft: "feature_texts S = [u ''address:12 Main'']"
    by (simp add: S_def feature_texts_def empty_soup_def get_text_text_element strip_evals)
  have l: "u ''address'' \<in> set (assigned_after_features ascii_db S)"
    by (simp add: assigned_after_features_def)
  have o: "own_rule ascii_db S (u ''address'') = Some (Str (u ''None found''))"
    by (simp add: own_rule_def address_rule_def S_def empty_soup_def u_def)
  have v: "dict_get (extract_listing_data ascii_db S) (u ''address'') = Some (Str (u ''None found''))"
    using l o by (simp only: extract_listing_data_lookup if_True)
  have "u ''None found'' \<noteq> u ''12 Main''" by (simp add: u_def)
  then show ?thesis using ft v feature_evals(4-6) unfolding S_def by simp
qed

subsection \<open>Running the listing tasks\<close>

lemma listing_no_lookup:
  "dict_get (dict_set (extract_listing_data U soup) (u ''url'') (Str url)) (u ''ListingNo'')
     = Some (listing_no_rule soup)"
proof -
  have "u ''ListingNo'' \<noteq> u ''url''" by (simp add: u_def)
  moreover have "u ''ListingNo'' \<in> set (assigned_after_features U soup)"
    by (simp add: assigned_after_features_def)
  moreover have "own_rule U soup (u ''ListingNo'') = Some (listing_no_rule soup)"
    by (simp add: own_rule_def u_def)
  ultimately show ?thesis by (simp add: dict_get_set extract_listing_data_lookup)
qed

lemma listing_no_is_Str: "\<exists>s. listing_no_rule soup = Str s"
  by (simp add: listing_no_rule_def split: option.splits)

lemma dict_set_nonempty: "dict_set d k v \<noteq> []"
  by (cases d) (simp_all add: dict_set_def)

lemma async_scrape_listing_Returned:
  "async_scrape_listing U (Returned soup) url nums =
     (let listing_data = dict_set (extract_listing_data U soup) (u ''url'') (Str url);
          no = listing_no_rule soup in
      if no \<noteq> Str (u ''None'') \<and> no \<notin> nums then (Some listing_data, insert no nums)
      else if no = Str (u ''None'') then (Some listing_data, nums)
      else (None, nums))"
proof -
  obtain s where s: "listing_no_rule soup = Str s" using listing_no_is_Str by blast
  show ?thesis
    by (simp add: async_scrape_listing_def scrape_listing_try_def Let_def listing_no_lookup s)
qed

lemma async_scrape_listing_Raised:
  "async_scrape_listing U (Raised e) url nums = (None, nums)"
  by (simp add: async_scrape_listing_def scrape_listing_try_def)

lemma async_scrape_listing_cases:
  obtains (absent) "async_scrape_listing U page url nums = (None, nums)"
  | (sentinel) d where "async_scrape_listing U page url nums = (Some d, nums)"
      "listing_no_of d = Some (Str (u ''None''))" "d \<noteq> []"
  | (fresh) d no where "async_scrape_listing U page url nums = (Some d, insert no nums)"
      "listing_no_of d = Some no" "no \<noteq> Str (u ''None'')" "no \<notin> nums" "d \<noteq> []"
proof (cases page)
  case (Raised e)
  then show ?thesis using absent by (simp add: async_scrape_listing_Raised)
next
  case (Returned soup)
  let ?d = "dict_set (extract_listing_data U soup) (u ''url'') (Str url)"
  let ?no = "listing_no_rule soup"
  have no: "listing_no_of ?d = Some ?no" by (simp add: listing_no_of_def listing_no_lookup)
  have ne: "?d \<noteq> []" by (rule dict_set_nonempty)
  show ?thesis
  proof (cases "?no = Str (u ''None'')")
    case True
    then have "async_scrape_listing U page url nums = (Some ?d, nums)"
      using Returned by (simp add: async_scrape_listing_Returned Let_def)
    then show ?thesis using sentinel no True ne by simp
  next
    case False
    show ?thesis
    proof (cases "?no \<in> nums")
      case True
      then have "async_scrape_listing U page url nums = (None, nums)"
        using Returned False by (simp add: async_scrape_listing_Returned Let_def)
      then show ?thesis by (rule absent)
    next
      case F: False
      then have "async_scrape_listing U page url nums = (Some ?d, insert ?no nums)"
        using Returned False by (simp add: async_scrape_listing_Returned Let_def)
      then show ?thesis using fresh no False F ne by blast
    qed
  qed
qed

lemma run_listing_tasks_once:
  assumes "I \<noteq> Str (u ''None'')"
  shows "length (with_no I (fst (run_listing_tasks U tasks nums))) \<le> 1
     \<and> (I \<in> nums \<longrightarrow> with_no I (fst (run_listing_tasks U tasks nums)) = [])
     \<and> nums \<subseteq> snd (run_listing_tasks U tasks nums)"
proof (induction tasks arbitrary: nums)
  case Nil
  then show ?case by (simp add: with_no_def)
next
  case (Cons task tasks)
  obtain r nums' where a: "async_scrape_listing U (fst task) (snd task) nums = (r, nums')"
    by (cases "async_scrape_listing U (fst task) (snd task) nums")
  obtain rest nums'' where b: "run_listing_tasks U tasks nums' = (rest, nums'')"
    by (cases "run_listing_tasks U tasks nums'")
  have run: "run_listing_tasks U (task # tasks) nums = (r # rest, nums'')" using a b by simp
  have ih: "length (with_no I rest) \<le> 1" "I \<in> nums' \<longrightarrow> with_no I rest = []" "nums' \<subseteq> nums''"
    using Cons.IH [of nums'] b by simp_all
  show ?case
  proof (cases rule: async_scrape_listing_cases [of U "fst task" "snd task" nums])
    case absent
    then have "r = None" "nums' = nums" using a by simp_all
    then show ?thesis unfolding run using ih by (simp add: with_no_def)
  next
    case (sentinel d)
    then have "r = Some d" "nums' = nums" using a by simp_all
    then show ?thesis unfolding run using ih sentinel(2) assms by (simp add: with_no_def)
  next
    case (fresh d no)
    then have r: "r = Some d" "nums' = insert no nums" using a by simp_all
    show ?thesis
    proof (cases "no = I")
      case True
      then have "with_no I rest = []" using ih(2) r by simp
      then show ?thesis unfolding run using ih r fresh True by (auto simp: with_no_def)
    next
      case False
      then show ?thesis unfolding run using ih r fresh by (auto simp: with_no_def)
    qed
  qed
qed

lemma append_data_filter:
  "append_data results bun = bun @ map the (filter (\<lambda>r. r \<noteq> None \<and> r \<noteq> Some []) results)"
proof (induction results arbitrary: bun)
  case Nil
  then show ?case by simp
next
  case (Cons r results)
  then show ?case by (cases r) auto
qed

lemma stored_with_no:
  "length (filter (\<lambda>d. listing_no_of d = Some I) (append_data results []))
     \<le> length (with_no I results)"
proof -
  have "length (filter (\<lambda>d. listing_no_of d = Some I)
          (map the (filter (\<lambda>r. r \<noteq> None \<and> r \<noteq> Some []) results)))
        \<le> length (with_no I results)"
  proof (induction results)
    case Nil
    then show ?case by simp
  next
    case (Cons r results)
    then show ?case by (cases r) (auto simp: with_no_def)
  qed
  then show ?thesis by (simp add: append_data_filter)
qed

lemma with_no_perm:
  assumes "mset rs = mset rs'"
  shows "length (with_no I rs) = length (with_no I rs')"
proof -
  have "mset (with_no I rs) = mset (with_no I rs')"
    unfolding with_no_def using assms by (simp only: mset_filter)
  then show ?thesis by (rule mset_eq_length)
qed

lemma data_bun_once:
  assumes "mset results = mset (fst (run_listing_tasks U tasks nums))" "I \<noteq> Str (u ''None'')"
  shows "length (filter (\<lambda>d. listing_no_of d = Some I) (append_data results [])) \<le> 1"
proof -
  have "length (filter (\<lambda>d. listing_no_of d = Some I) (append_data results []))
      \<le> length (with_no I results)" by (rule stored_with_no)
  also have "\<dots> = length (with_no I (fst (run_listing_tasks U tasks nums)))"
    using assms(1) by (rule with_no_perm)
  also have "\<dots> \<le> 1" using run_listing_tasks_once [OF assms(2)] by blast
  finally show ?thesis .
qed

lemma sentinel_always_returned:
  assumes "listing_no_rule soup = Str (u ''None'')"
  shows "\<exists>d. async_scrape_listing U (Returned soup) url nums = (Some d, nums)
          \<and> listing_no_of d = Some (Str (u ''None''))
          \<and> append_data [Some d] data_bun = data_bun @ [d]"
proof -
  let ?d = "dict_set (extract_listing_data U soup) (u ''url'') (Str url)"
  have "async_scrape_listing U (Returned soup) url nums = (Some ?d, nums)"
    using assms by (simp add: async_scrape_listing_Returned Let_def)
  moreover have "listing_no_of ?d = Some (Str (u ''None''))"
    using assms by (simp add: listing_no_of_def listing_no_lookup)
  moreover have "append_data [Some ?d] data_bun = data_bun @ [?d]"
    by (simp add: dict_set_nonempty)
  ultimately show ?thesis by blast
qed

text \<open>
  Claim C2. Take the listing tasks in the order in which they resume, starting from an
  empty set of identifiers, and the results in any order in which \<open>gather\<close> may hand them
  back. For an identifier other than the sentinel \<open>None\<close> at most one record with that
  identifier is appended to the result store. A page whose identifier is the sentinel is
  returned and appended whatever the set of identifiers holds, and leaves the set as it is.
\<close>

theorem listing_no_once:
  "(\<forall>results I. mset results = mset (fst (run_listing_tasks U tasks {})) \<and> I \<noteq> Str (u ''None'')
       \<longrightarrow> length (filter (\<lambda>d. listing_no_of d = Some I) (append_data results [])) \<le> 1)
   \<and> (listing_no_rule soup = Str (u ''None'') \<longrightarrow>
        (\<exists>d. async_scrape_listing U (Returned soup) url nums = (Some d, nums)
          \<and> listing_no_of d = Some (Str (u ''None''))
          \<and> append_data [Some d] data_bun = data_bun @ [d]))"
  using data_bun_once [of _ U tasks "{}"] sentinel_always_returned [of soup U url nums data_bun]
  by blast

theorem listing_no_once_witness:
  "Str (u ''999'') \<noteq> Str (u ''None'')
   \<and> map (map_option listing_no_of) (fst (run_listing_tasks ascii_db
        [(Returned (empty_soup\<lparr>select_one_p24_info := Some (text_element (u ''999''))\<rparr>), u ''L1''),
         (Returned (empty_soup\<lparr>select_one_p24_info := Some (text_element (u ''999''))\<rparr>), u ''L2''),
         (Returned empty_soup, u ''L3''), (Returned empty_soup, u ''L4'')] {}))
       = [Some (Some (Str (u ''999''))), None, Some (Some (Str (u ''None''))),
          Some (Some (Str (u ''None'')))]
   \<and> length (filter (\<lambda>d. listing_no_of d = Some (Str (u ''999'')))
        (append_data (rev (fst (run_listing_tasks ascii_db
        [(Returned (empty_soup\<lparr>select_one_p24_info := Some (text_element (u ''999''))\<rparr>), u ''L1''),
         (Returned (empty_soup\<lparr>select_one_p24_info := Some (text_element (u ''999''))\<rparr>), u ''L2''),
         (Returned empty_soup, u ''L3''), (Returned empty_soup, u ''L4'')] {}))) [])) \<le> 1
   \<and> listing_no_rule empty_soup = Str (u ''None'')
   \<and> fst (async_scrape_listing ascii_db (Returned empty_soup) (u ''L4'') {Str (u ''999'')}) \<noteq> None"
proof -
  define S where "S = empty_soup\<lparr>select_one_p24_info := Some (text_element (u ''999''))\<rparr>"
  define tasks where "tasks = [(Returned S, u ''L1''), (Returned S, u ''L2''),
         (Returned empty_soup, u ''L3''), (Returned empty_soup, u ''L4'')]"
  have ne: "Str (u ''999'') \<noteq> Str (u ''None'')" by (simp add: u_def)
  have lnr: "listing_no_rule S = Str (u ''999'')" "listing_no_rule empty_soup = Str (u ''None'')"
    by (simp_all add: S_def listing_no_rule_def empty_soup_def get_text_text_element
        strip_def lstrip_def rstrip_def isspace_def u_def)
  have run: "map (map_option listing_no_of) (fst (run_listing_tasks ascii_db tasks {}))
       = [Some (Some (Str (u ''999''))), None, Some (Some (Str (u ''None''))),
          Some (Some (Str (u ''None'')))]"
    using ne by (simp add: tasks_def async_scrape_listing_Returned Let_def listing_no_of_def
        listing_no_lookup lnr)
  have once: "length (filter (\<lambda>d. listing_no_of d = Some (Str (u ''999'')))
        (append_data (rev (fst (run_listing_tasks ascii_db tasks {}))) [])) \<le> 1"
    using listing_no_once [of ascii_db tasks empty_soup "u ''L4''" "{Str (u ''999'')}" "[]",
        THEN conjunct1, rule_format,
        of "rev (fst (run_listing_tasks ascii_db tasks {}))" "Str (u ''999'')"] ne
    by simp
  have "\<exists>d. async_scrape_listing ascii_db (Returned empty_soup) (u ''L4'') {Str (u ''999'')}
          = (Some d, {Str (u ''999'')})"
    using listing_no_once [of ascii_db tasks empty_soup "u ''L4''" "{Str (u ''999'')}" "[]",
        THEN conjunct2] lnr(2) by blast
  then have ret: "fst (async_scrape_listing ascii_db (Returned empty_soup) (u ''L4'') {Str (u ''999'')}) \<noteq> None"
    by auto
  show ?thesis using ne run once lnr(2) ret unfolding tasks_def S_def by blast
qed

lemma run_page_tasks_length: "length (fst (run_page_tasks U pages S)) = length pages"
  by (induction pages arbitrary: S) (simp_all add: split_def Let_def)

lemma run_listing_tasks_length: "length (fst (run_listing_tasks U tasks nums)) = length tasks"
  by (induction tasks arbitrary: nums) (simp_all add: split_def Let_def)

lemma async_scrape_page_Raised: "async_scrape_page U (Raised e) S = ([], S)"
  by (simp add: async_scrape_page_def scrape_page_try_def)

lemma page_failure_caught:
  "scrape_page_try U page S = Inl e \<Longrightarrow> async_scrape_page U page S = ([], S)"
  by (simp add: async_scrape_page_def)

lemma listing_failure_caught:
  "scrape_listing_try U page url nums = Inl e \<Longrightarrow> async_scrape_listing U page url nums = (None, nums)"
  by (simp add: async_scrape_listing_def)

lemma page_siblings_unaffected:
  "fst (run_page_tasks U (filter returned pages) S)
     = map snd (filter (\<lambda>p. returned (fst p)) (zip pages (fst (run_page_tasks U pages S))))
   \<and> snd (run_page_tasks U (filter returned pages) S) = snd (run_page_tasks U pages S)"
proof (induction pages arbitrary: S)
  case Nil
  then show ?case by simp
next
  case (Cons page pages)
  show ?case
  proof (cases page)
    case (Raised e)
    then show ?thesis using Cons.IH [of S]
      by (simp add: returned_def async_scrape_page_Raised split_def Let_def)
  next
    case (Returned hrefs)
    then show ?thesis using Cons.IH [of "snd (async_scrape_page U page S)"]
      by (simp add: returned_def split_def Let_def)
  qed
qed

lemma listing_siblings_unaffected:
  "fst (run_listing_tasks U (filter (\<lambda>t. returned (fst t)) tasks) nums)
     = map snd (filter (\<lambda>p. returned (fst (fst p))) (zip tasks (fst (run_listing_tasks U tasks nums))))
   \<and> snd (run_listing_tasks U (filter (\<lambda>t. returned (fst t)) tasks) nums)
     = snd (run_listing_tasks U tasks nums)"
proof (induction tasks arbitrary: nums)
  case Nil
  then show ?case by simp
next
  case (Cons task tasks)
  show ?case
  proof (cases "fst task")
    case (Raised e)
    then show ?thesis using Cons.IH [of nums]
      by (simp add: returned_def async_scrape_listing_Raised split_def Let_def)
  next
    case (Returned soup)
    then show ?thesis
      using Cons.IH [of "snd (async_scrape_listing U (fst task) (snd task) nums)"]
      by (simp add: returned_def split_def Let_def)
  qed
qed

lemma failed_page_result:
  "i < length pages \<Longrightarrow> \<not> returned (pages ! i) \<Longrightarrow> fst (run_page_tasks U pages S) ! i = []"
proof (induction pages arbitrary: S i)
  case Nil
  then show ?case by simp
next
  case (Cons page pages)
  show ?case
  proof (cases i)
    case 0
    then obtain e where "page = Raised e" using Cons.prems(2) by (cases page) (simp_all add: returned_def)
    then show ?thesis using 0 by (simp add: async_scrape_page_Raised split_def Let_def)
  next
    case (Suc j)
    then show ?thesis using Cons.prems Cons.IH [of j "snd (async_scrape_page U page S)"]
      by (simp add: split_def Let_def)
  qed
qed

lemma failed_listing_result:
  "i < length tasks \<Longrightarrow> \<not> returned (fst (tasks ! i)) \<Longrightarrow>
     fst (run_listing_tasks U tasks nums) ! i = None"
proof (induction tasks arbitrary: nums i)
  case Nil
  then show ?case by simp
next
  case (Cons task tasks)
  show ?case
  proof (cases i)
    case 0
    then obtain e where "fst task = Raised e"
      using Cons.prems(2) by (cases "fst task") (simp_all add: returned_def)
    then show ?thesis using 0 by (simp add: async_scrape_listing_Raised split_def Let_def)
  next
    case (Suc j)
    then show ?thesis
      using Cons.prems Cons.IH [of j "snd (async_scrape_listing U (fst task) (snd task) nums)"]
      by (simp add: split_def Let_def)
  qed
qed

text \<open>
  Claim C3. An exception raised in the \<open>try\<close> block of a task is turned into the empty link
  list or into \<open>None\<close>, and the shared state is left as it was. A run therefore has one
  result per task; the result of a failed task is the empty list or \<open>None\<close>; and the other
  tasks get the results and leave the shared state they would without the failed tasks.
\<close>

theorem failures_stay_in_task:
  "(scrape_page_try U page S = Inl e \<longrightarrow> async_scrape_page U page S = ([], S))
   \<and> (scrape_listing_try U lpage url nums = Inl e'
        \<longrightarrow> async_scrape_listing U lpage url nums = (None, nums))
   \<and> length (fst (run_page_tasks U pages S)) = length pages
   \<and> length (fst (run_listing_tasks U tasks nums)) = length tasks
   \<and> (\<forall>i. i < length pages \<and> \<not> returned (pages ! i)
        \<longrightarrow> fst (run_page_tasks U pages S) ! i = [])
   \<and> (\<forall>i. i < length tasks \<and> \<not> returned (fst (tasks ! i))
        \<longrightarrow> fst (run_listing_tasks U tasks nums) ! i = None)
   \<and> fst (run_page_tasks U (filter returned pages) S)
        = map snd (filter (\<lambda>p. returned (fst p)) (zip pages (fst (run_page_tasks U pages S))))
   \<and> snd (run_page_tasks U (filter returned pages) S) = snd (run_page_tasks U pages S)
   \<and> fst (run_listing_tasks U (filter (\<lambda>t. returned (fst t)) tasks) nums)
        = map snd (filter (\<lambda>p. returned (fst (fst p)))
            (zip tasks (fst (run_listing_tasks U tasks nums))))
   \<and> snd (run_listing_tasks U (filter (\<lambda>t. returned (fst t)) tasks) nums)
        = snd (run_listing_tasks U tasks nums)"
  using page_failure_caught [of U page S e] listing_failure_caught [of U lpage url nums e']
    run_page_tasks_length [of U pages S] run_listing_tasks_length [of U tasks nums]
    failed_page_result [of _ pages U S] failed_listing_result [of _ tasks U nums]
    page_siblings_unaffected [of U pages S] listing_siblings_unaffected [of U tasks nums]
  by blast

theorem failures_stay_in_task_witness:
  "scrape_page_try ascii_db (Raised RequestsError) {} = Inl RequestsError
   \<and> async_scrape_page ascii_db (Raised RequestsError) {} = ([], {})
   \<and> scrape_listing_try ascii_db (Raised HTTPError) (u ''L1'') {} = Inl HTTPError
   \<and> async_scrape_listing ascii_db (Raised HTTPError) (u ''L1'') {} = (None, {})
   \<and> \<not> returned ([Returned ([]::pystr list), Raised RequestsError] ! 1)
   \<and> fst (run_page_tasks ascii_db [Returned [], Raised RequestsError] {}) ! 1 = []
   \<and> \<not> returned (fst ([(Raised HTTPError, u ''L1''), (Returned empty_soup, u ''L2'')] ! 0))
   \<and> fst (run_listing_tasks ascii_db [(Raised HTTPError, u ''L1''), (Returned empty_soup, u ''L2'')] {}) ! 0
       = None"
proof -
  have a: "scrape_page_try ascii_db (Raised RequestsError) {} = Inl RequestsError"
    by (simp add: scrape_page_try_def)
  have b: "scrape_listing_try ascii_db (Raised HTTPError) (u ''L1'') {} = Inl HTTPError"
    by (simp add: scrape_listing_try_def)
  have c: "(1::nat) < length [Returned ([]::pystr list), Raised RequestsError]
      \<and> \<not> returned ([Returned ([]::pystr list), Raised RequestsError] ! 1)"
    by (simp add: returned_def)
  have d: "(0::nat) < length [(Raised HTTPError, u ''L1''), (Returned empty_soup, u ''L2'')]
      \<and> \<not> returned (fst ([(Raised HTTPError, u ''L1''), (Returned empty_soup, u ''L2'')] ! 0))"
    by (simp add: returned_def)
  note t = failures_stay_in_task [of ascii_db "Raised RequestsError" "{}" RequestsError
      "Raised HTTPError" "u ''L1''" "{}" HTTPError "[Returned [], Raised RequestsError]"
      "[(Raised HTTPError, u ''L1''), (Returned empty_soup, u ''L2'')]"]
  have a': "async_scrape_page ascii_db (Raised RequestsError) {} = ([], {})"
    using t [THEN conjunct1] a by blast
  have c': "fst (run_page_tasks ascii_db [Returned [], Raised RequestsError] {}) ! 1 = []"
    using t [THEN conjunct2, THEN conjunct2, THEN conjunct2, THEN conjunct2, THEN conjunct1,
        rule_format, of 1] c by blast
  have d': "fst (run_listing_tasks ascii_db [(Raised HTTPError, u ''L1''), (Returned empty_soup, u ''L2'')] {}) ! 0
       = None"
    using t [THEN conjunct2, THEN conjunct2, THEN conjunct2, THEN conjunct2, THEN conjunct2,
        THEN conjunct1, rule_format, of 0] d by blast
  have b': "async_scrape_listing ascii_db (Raised HTTPError) (u ''L1'') {} = (None, {})"
    using t [THEN conjunct2, THEN conjunct1] b by blast
  show ?thesis using a a' b b' c c' d d' by blast
qed

end
